theory Spec2Isabelle
  imports Complex_Main "HOL-Library.AList" "HOL-Library.Sublist" "HOL-Library.Multiset"
    "HOL-Library.Word"
begin

section \<open>The SCTP scanner of 0xSS7: \<open>SCTP/scan.py\<close> and \<open>SCTP/connect.py\<close>\<close>

text \<open>
  The scanner \<open>scan_sctp\<close> is a single-threaded event loop over non-blocking sockets.
  Everything it learns from the operating system (whether a socket can be created and
  registered, which sockets \<open>select\<close> reports, what the clocks read, what
  \<open>SO_ERROR\<close> holds) is an input of the model, collected in the record \<open>env\<close>.
  The Python objects it mutates (\<open>tasks\<close>, \<open>in_flight\<close>, \<open>results\<close>, the selector)
  are the fields of \<open>scan_state\<close>, passed through every function and returned updated.
  The field \<open>trace\<close> records the calls the scan makes, in order; the console output
  and the progress bar are left out, except that each \<open>prog.update\<close> is the event
  \<open>Ev_done\<close>. An exception is a value: a function returns \<open>Inl\<close> with the error and the
  state at the raise. The loop takes the number of iterations it may run; \<open>Running\<close> is
  the answer when they are used up. Clock readings and the timeout are Python floats;
  here they are rationals, so the rounding of \<open>now - start\<close> is not modelled.
\<close>

subsection \<open>Data\<close>

type_synonym handle = nat
  \<comment> \<open>a socket object; the \<open>n\<close>-th socket created by the scan is \<open>n\<close>\<close>

type_synonym target = "string \<times> int"
  \<comment> \<open>\<open>(ip, port)\<close>\<close>

type_synonym time = rat
  \<comment> \<open>seconds, as read from a clock\<close>

type_synonym flight = "(handle \<times> string \<times> int \<times> time) list"
  \<comment> \<open>the dict \<open>in_flight\<close>: \<open>sock \<mapsto> (ip, port, start)\<close>, in insertion order\<close>

record clock_reading =
  wall :: time  \<comment> \<open>the system clock, which an administrator or NTP may set\<close>
  mono :: time  \<comment> \<open>the monotonic clock\<close>

definition time_time :: "clock_reading \<Rightarrow> time" where
  \<comment> \<open>Python's \<open>time.time()\<close>: seconds since the epoch on the system clock\<close>
  "time_time r = wall r"

datatype admission =
    Admit_ok
  | Create_fails  \<comment> \<open>\<open>socket.socket\<close> raises (line 107)\<close>
  | Connect_fails  \<comment> \<open>\<open>connect_ex\<close> raises, as it does for an address it cannot use (line 109)\<close>
  | Register_fails  \<comment> \<open>\<open>selector.register\<close> raises (line 110)\<close>

datatype error = OSError_socket | OSError_connect | OSError_register | KeyError

datatype resolution = Success | Failure | Timeout

datatype event =
    Ev_socket handle target  \<comment> \<open>lines 107-109: socket created, connect issued\<close>
  | Ev_insert handle  \<comment> \<open>line 111: \<open>in_flight[sock] = ...\<close>\<close>
  | Ev_pop handle  \<comment> \<open>lines 123 and 136: \<open>in_flight.pop(sock)\<close>\<close>
  | Ev_close handle  \<comment> \<open>lines 128 and 135: \<open>sock.close()\<close>\<close>
  | Ev_done handle target resolution
      \<comment> \<open>lines 129 and 137: \<open>prog.update(task_id, advance=1)\<close>, with the branch taken\<close>

record env =
  admit :: "nat \<Rightarrow> admission"
    \<comment> \<open>how creating, connecting and registering the \<open>n\<close>-th socket ends\<close>
  admit_clock :: "nat \<Rightarrow> clock_reading"
    \<comment> \<open>the clocks when the \<open>n\<close>-th socket is stamped (line 111)\<close>
  select_ready :: "nat \<Rightarrow> handle list \<Rightarrow> handle list"
    \<comment> \<open>the sockets the \<open>k\<close>-th \<open>selector.select\<close> reports, given the registered ones\<close>
  poll_clock :: "nat \<Rightarrow> clock_reading"
    \<comment> \<open>the clocks right after the \<open>k\<close>-th \<open>select\<close> (line 119)\<close>
  so_error :: "handle \<Rightarrow> int"
    \<comment> \<open>\<open>getsockopt(SOL_SOCKET, SO_ERROR)\<close> of a socket reported writable\<close>

record scan_state =
  tasks :: "target list"  \<comment> \<open>what the generator \<open>tasks\<close> has yet to yield\<close>
  in_flight :: flight
  registered :: "handle list"  \<comment> \<open>the sockets registered with \<open>selector\<close>\<close>
  results :: "target list"
  created :: nat  \<comment> \<open>sockets created so far\<close>
  polls :: nat  \<comment> \<open>calls of \<open>selector.select\<close> so far\<close>
  trace :: "event list"  \<comment> \<open>the calls made so far, oldest first\<close>

datatype outcome =
    Returned scan_state  \<comment> \<open>\<open>return results\<close>\<close>
  | Raised error scan_state  \<comment> \<open>an exception left \<open>scan_sctp\<close>\<close>
  | Running scan_state  \<comment> \<open>the loop has not ended within the iterations allowed\<close>

subsection \<open>The generator \<open>tasks\<close> (line 88)\<close>

definition gen_tasks :: "string list \<Rightarrow> int list \<Rightarrow> target list" where
  "gen_tasks ips ports = [(ip, port). ip \<leftarrow> ips, port \<leftarrow> ports]"

definition next_task :: "target list \<Rightarrow> (target \<times> target list) option" where
  \<comment> \<open>\<open>next(tasks)\<close>; \<open>None\<close> is \<open>StopIteration\<close>\<close>
  "next_task ts = (case ts of [] \<Rightarrow> None | t # rest \<Rightarrow> Some (t, rest))"

definition total :: "string list \<Rightarrow> int list \<Rightarrow> nat" where
  "total ips ports = length ips * length ports"

subsection \<open>Admission (lines 104-113)\<close>

definition pop :: "handle \<Rightarrow> flight \<Rightarrow> ((string \<times> int \<times> time) \<times> flight) option" where
  \<comment> \<open>\<open>in_flight.pop(sock)\<close>; \<open>None\<close> is \<open>KeyError\<close>\<close>
  "pop h d = (case map_of d h of None \<Rightarrow> None | Some v \<Rightarrow> Some (v, AList.delete h d))"

definition admit_one :: "env \<Rightarrow> target \<Rightarrow> scan_state \<Rightarrow> (error \<times> scan_state) + scan_state" where
  "admit_one env t s =
     (let h = created s in
      case admit env h of
        Create_fails \<Rightarrow> Inl (OSError_socket, s)
      | Connect_fails \<Rightarrow>
          Inl (OSError_connect, s\<lparr>created := Suc h, trace := trace s @ [Ev_socket h t]\<rparr>)
      | Register_fails \<Rightarrow>
          Inl (OSError_register, s\<lparr>created := Suc h, trace := trace s @ [Ev_socket h t]\<rparr>)
      | Admit_ok \<Rightarrow>
          Inr (s\<lparr>created := Suc h,
                 registered := registered s @ [h],
                 in_flight := AList.update h (fst t, snd t, time_time (admit_clock env h))
                                (in_flight s),
                 trace := trace s @ [Ev_socket h t, Ev_insert h]\<rparr>))"

function refill :: "env \<Rightarrow> int \<Rightarrow> scan_state \<Rightarrow> (error \<times> scan_state) + scan_state" where
  "refill env concurrency s =
     (if int (length (in_flight s)) < concurrency then
        (case next_task (tasks s) of
           None \<Rightarrow> Inr s
         | Some (t, rest) \<Rightarrow>
             (case admit_one env t (s\<lparr>tasks := rest\<rparr>) of
                Inl e \<Rightarrow> Inl e
              | Inr s' \<Rightarrow> refill env concurrency s'))
      else Inr s)"
  by pat_completeness auto
termination
proof (relation "measure (\<lambda>(env, c, s). length (tasks s))")
  show "wf (measure (\<lambda>(env :: env, c :: int, s). length (tasks s)))"
    by simp
next
  fix env :: env and concurrency :: int and s x2 x y s'
  assume "next_task (tasks s) = Some x2" and "(x, y) = x2"
    and "admit_one env x (s\<lparr>tasks := y\<rparr>) = Inr s'"
  then show "((env, concurrency, s'), (env, concurrency, s))
      \<in> measure (\<lambda>(env, c, s). length (tasks s))"
    by (auto simp: next_task_def admit_one_def Let_def split: list.splits admission.splits)
qed

declare refill.simps [simp del]

subsection \<open>One poll: ready sockets, then the expiry sweep (lines 118-137)\<close>

definition resolve_ready :: "env \<Rightarrow> handle \<Rightarrow> string \<Rightarrow> int \<Rightarrow> scan_state \<Rightarrow> scan_state" where
  \<comment> \<open>lines 124-129, after the pop\<close>
  "resolve_ready env h ip port s =
     (let err = so_error env h in
      s\<lparr>registered := removeAll h (registered s),
        results := (if err = 0 then results s @ [(ip, port)] else results s),
        trace := trace s @ [Ev_pop h, Ev_close h,
                   Ev_done h (ip, port) (if err = 0 then Success else Failure)]\<rparr>)"

fun handle_ready :: "env \<Rightarrow> handle list \<Rightarrow> scan_state \<Rightarrow> (error \<times> scan_state) + scan_state" where
  "handle_ready env [] s = Inr s"
| "handle_ready env (h # hs) s =
     (case pop h (in_flight s) of
        None \<Rightarrow> Inl (KeyError, s)
      | Some ((ip, port, start), d) \<Rightarrow>
          if h \<notin> set (registered s)
          then Inl (KeyError, s\<lparr>in_flight := d, trace := trace s @ [Ev_pop h]\<rparr>)
          else handle_ready env hs (resolve_ready env h ip port (s\<lparr>in_flight := d\<rparr>)))"

definition expire :: "handle \<Rightarrow> string \<Rightarrow> int \<Rightarrow> flight \<Rightarrow> scan_state \<Rightarrow> scan_state" where
  \<comment> \<open>lines 134-137, with \<open>d\<close> the dict after the pop\<close>
  "expire h ip port d s =
     s\<lparr>registered := removeAll h (registered s),
       in_flight := d,
       trace := trace s @ [Ev_close h, Ev_pop h, Ev_done h (ip, port) Timeout]\<rparr>"

fun sweep :: "time \<Rightarrow> time \<Rightarrow> flight \<Rightarrow> scan_state \<Rightarrow> (error \<times> scan_state) + scan_state" where
  "sweep now timeout [] s = Inr s"
| "sweep now timeout ((h, ip, port, start) # rest) s =
     (if now - start \<ge> timeout then
        (if h \<notin> set (registered s) then Inl (KeyError, s)
         else
           (case pop h (in_flight s) of
              None \<Rightarrow>
                Inl (KeyError, s\<lparr>registered := removeAll h (registered s),
                                 trace := trace s @ [Ev_close h]\<rparr>)
            | Some (v, d) \<Rightarrow> sweep now timeout rest (expire h ip port d s)))
      else sweep now timeout rest s)"

definition poll_once :: "env \<Rightarrow> time \<Rightarrow> scan_state \<Rightarrow> (error \<times> scan_state) + scan_state" where
  "poll_once env timeout s =
     (let k = polls s;
          events = select_ready env k (registered s);
          now = time_time (poll_clock env k)
      in case handle_ready env events (s\<lparr>polls := Suc k\<rparr>) of
           Inl e \<Rightarrow> Inl e
         | Inr s' \<Rightarrow> sweep now timeout (in_flight s') s')"

subsection \<open>The event loop (lines 102-139)\<close>

fun event_loop :: "env \<Rightarrow> int \<Rightarrow> time \<Rightarrow> nat \<Rightarrow> scan_state \<Rightarrow> outcome" where
  "event_loop env concurrency timeout 0 s = Running s"
| "event_loop env concurrency timeout (Suc fuel) s =
     (case refill env concurrency s of
        Inl (e, s') \<Rightarrow> Raised e s'
      | Inr s1 \<Rightarrow>
          if in_flight s1 = [] then Returned s1
          else
            (case poll_once env timeout s1 of
               Inl (e, s') \<Rightarrow> Raised e s'
             | Inr s2 \<Rightarrow> event_loop env concurrency timeout fuel s2))"

definition init_state :: "string list \<Rightarrow> int list \<Rightarrow> scan_state" where
  "init_state ips ports =
     \<lparr>tasks = gen_tasks ips ports, in_flight = [], registered = [], results = [],
      created = 0, polls = 0, trace = []\<rparr>"

definition scan_sctp :: "env \<Rightarrow> string list \<Rightarrow> int list \<Rightarrow> int \<Rightarrow> time \<Rightarrow> nat \<Rightarrow> outcome" where
  "scan_sctp env ips ports concurrency timeout fuel =
     event_loop env concurrency timeout fuel (init_state ips ports)"

subsection \<open>Pulling from the generator\<close>

fun nth_next :: "nat \<Rightarrow> target list \<Rightarrow> target option" where
  \<comment> \<open>what the call number \<open>n\<close> (from 0) of \<open>next(tasks)\<close> yields; \<open>None\<close> is \<open>StopIteration\<close>\<close>
  "nth_next n ts =
     (case next_task ts of
        None \<Rightarrow> None
      | Some (t, rest) \<Rightarrow> (case n of 0 \<Rightarrow> Some t | Suc m \<Rightarrow> nth_next m rest))"

subsection \<open>\<open>SCTP/connect.py\<close>: the M3UA ASPUP message\<close>

type_synonym byte = "8 word"

definition pack_B :: "int \<Rightarrow> byte list option" where
  \<comment> \<open>format \<open>B\<close>, an unsigned char; \<open>None\<close> is \<open>struct.error\<close>\<close>
  "pack_B v = (if 0 \<le> v \<and> v \<le> 255 then Some [word_of_int v] else None)"

definition pack_I :: "int \<Rightarrow> byte list option" where
  \<comment> \<open>format \<open>I\<close> in network order: four bytes, the most significant first\<close>
  "pack_I v =
     (if 0 \<le> v \<and> v < 2 ^ 32
      then Some (map (\<lambda>i. word_of_int (v div 256 ^ i)) [3, 2, 1, 0])
      else None)"

fun pack_fields :: "string \<Rightarrow> int list \<Rightarrow> byte list option" where
  "pack_fields [] [] = Some []"
| "pack_fields (f # fs) (v # vs) =
     (case (if f = CHR ''B'' then pack_B v else if f = CHR ''I'' then pack_I v else None) of
        None \<Rightarrow> None
      | Some bs \<Rightarrow> map_option ((@) bs) (pack_fields fs vs))"
| "pack_fields _ _ = None"

definition struct_pack :: "string \<Rightarrow> int list \<Rightarrow> byte list option" where
  \<comment> \<open>\<open>struct.pack\<close> for the formats used here: \<open>!\<close> followed by \<open>B\<close> and \<open>I\<close> fields\<close>
  "struct_pack fmt vs =
     (case fmt of [] \<Rightarrow> None
      | c # fs \<Rightarrow> if c = CHR ''!'' then pack_fields fs vs else None)"

definition unpack_I :: "byte list \<Rightarrow> int" where
  \<comment> \<open>the unsigned integer a run of bytes holds in network order\<close>
  "unpack_I bs = foldl (\<lambda>acc b. acc * 256 + uint b) 0 bs"

definition build_m3ua_aspup :: "byte list option" where
  "build_m3ua_aspup =
     (let version = 0x01; reserved = 0x00; msg_class = 0x03; msg_type = 0x01; length = 8;
          header = struct_pack ''!BBBBI'' [version, reserved, msg_class, msg_type, length]
      in header)"

subsection \<open>Well-formed states and invariants of the loop\<close>

definition wf_state :: "scan_state \<Rightarrow> bool" where
  \<comment> \<open>the selector holds the keys of \<open>in_flight\<close>, in order, each once, all created earlier\<close>
  "wf_state s \<longleftrightarrow>
     registered s = map fst (in_flight s) \<and> distinct (registered s)
     \<and> (\<forall>h \<in> set (registered s). h < created s)"

definition preserved ::
  "(scan_state \<Rightarrow> bool) \<Rightarrow> (scan_state \<Rightarrow> bool) \<Rightarrow> env \<Rightarrow> int \<Rightarrow> time \<Rightarrow> bool" where
  \<comment> \<open>\<open>P\<close> survives each step the loop takes (an admission, a poll, the resolution of a
      reported socket, an expiry), and \<open>Q\<close> holds of the state at a raise\<close>
  "preserved P Q env c T \<longleftrightarrow>
     (\<forall>s. P s \<longrightarrow> wf_state s \<and> Q s)
   \<and> (\<forall>s t rest. P s \<and> tasks s = t # rest \<and> int (length (in_flight s)) < c \<longrightarrow>
        (case admit_one env t (s\<lparr>tasks := rest\<rparr>) of Inl (e, s') \<Rightarrow> Q s' | Inr s' \<Rightarrow> P s'))
   \<and> (\<forall>s. P s \<longrightarrow> P (s\<lparr>polls := Suc (polls s)\<rparr>))
   \<and> (\<forall>s h ip port start d k regs.
        P s \<and> pop h (in_flight s) = Some ((ip, port, start), d) \<and> h \<in> set (registered s)
        \<and> polls s = Suc k \<and> h \<in> set regs \<and> h \<in> set (select_ready env k regs) \<longrightarrow>
        P (resolve_ready env h ip port (s\<lparr>in_flight := d\<rparr>)))
   \<and> (\<forall>s h ip port start d k regs.
        P s \<and> pop h (in_flight s) = Some ((ip, port, start), d) \<and> h \<in> set (registered s)
        \<and> polls s = Suc k \<and> h \<in> set regs \<and> h \<notin> set (select_ready env k regs)
        \<and> T \<le> time_time (poll_clock env k) - start \<longrightarrow>
        P (expire h ip port d s))"

subsection \<open>The size of \<open>in_flight\<close>, read off the trace\<close>

fun delta :: "event \<Rightarrow> int" where
  "delta (Ev_insert h) = 1"
| "delta (Ev_pop h) = - 1"
| "delta _ = 0"

definition live :: "event list \<Rightarrow> int" where
  \<comment> \<open>inserts minus pops: the number of entries of \<open>in_flight\<close> after these calls\<close>
  "live tr = sum_list (map delta tr)"

definition capped :: "int \<Rightarrow> event list \<Rightarrow> bool" where
  \<comment> \<open>after every call the dict has at most \<open>c\<close> entries, and fewer when a socket is created\<close>
  "capped c tr \<longleftrightarrow>
     (\<forall>p. prefix p tr \<longrightarrow> live p \<le> c)
   \<and> (\<forall>p h t. prefix (p @ [Ev_socket h t]) tr \<longrightarrow> live p < c)"

definition state_of :: "outcome \<Rightarrow> scan_state" where
  \<comment> \<open>the state an outcome carries\<close>
  "state_of out = (case out of Returned s \<Rightarrow> s | Raised e s \<Rightarrow> s | Running s \<Rightarrow> s)"

definition size_inv :: "int \<Rightarrow> scan_state \<Rightarrow> bool" where
  "size_inv c s \<longleftrightarrow> int (length (in_flight s)) = live (trace s) \<and> capped c (trace s)"

subsection \<open>A sample environment\<close>

text \<open>
  Every socket can be created; all are stamped at time 0; \<open>select\<close> reports every
  registered socket but socket 1, which never answers; the clock after poll \<open>k\<close> reads
  \<open>k\<close> seconds; socket 0 connected, the others were refused.
\<close>

definition demo_env :: env where
  "demo_env =
     \<lparr>admit = (\<lambda>n. Admit_ok),
      admit_clock = (\<lambda>n. \<lparr>wall = 0, mono = 0\<rparr>),
      select_ready = (\<lambda>k regs. filter (\<lambda>h. h \<noteq> 1) regs),
      poll_clock = (\<lambda>k. \<lparr>wall = of_nat k, mono = of_nat k\<rparr>),
      so_error = (\<lambda>h. if h = 0 then 0 else 111)\<rparr>"

subsection \<open>Resolutions, read off the trace\<close>

fun done_of :: "event \<Rightarrow> (handle \<times> target \<times> resolution) list" where
  "done_of (Ev_done h t r) = [(h, t, r)]"
| "done_of _ = []"

definition dones :: "event list \<Rightarrow> (handle \<times> target \<times> resolution) list" where
  "dones tr = concat (map done_of tr)"

definition resolved :: "handle \<Rightarrow> event list \<Rightarrow> nat" where
  \<comment> \<open>how many times the attempt on socket \<open>h\<close> has been resolved\<close>
  "resolved h tr = length (filter (\<lambda>(h', t, r). h' = h) (dones tr))"

definition closes :: "handle \<Rightarrow> event list \<Rightarrow> nat" where
  \<comment> \<open>how many times socket \<open>h\<close> has been closed\<close>
  "closes h tr = count_list tr (Ev_close h)"

definition ready_events :: "env \<Rightarrow> flight \<Rightarrow> handle \<Rightarrow> event list" where
  "ready_events env d h =
     (case map_of d h of
        None \<Rightarrow> []
      | Some (ip, port, start) \<Rightarrow>
          [Ev_pop h, Ev_close h,
           Ev_done h (ip, port) (if so_error env h = 0 then Success else Failure)])"

definition ready_results :: "env \<Rightarrow> flight \<Rightarrow> handle \<Rightarrow> target list" where
  "ready_results env d h =
     (case map_of d h of
        None \<Rightarrow> []
      | Some (ip, port, start) \<Rightarrow> if so_error env h = 0 then [(ip, port)] else [])"

definition results_inv :: "env \<Rightarrow> scan_state \<Rightarrow> bool" where
  \<comment> \<open>\<open>results\<close> holds the targets resolved otherwise than by timeout with \<open>SO_ERROR\<close> zero\<close>
  "results_inv env s \<longleftrightarrow>
     results s = [t. (h, t, r) \<leftarrow> dones (trace s), r \<noteq> Timeout \<and> so_error env h = 0]"

definition lifecycle :: "scan_state \<Rightarrow> bool" where
  \<comment> \<open>the sockets inserted are those created; a socket has been closed once and resolved
      once if it was created and is no longer registered, and never otherwise\<close>
  "lifecycle s \<longleftrightarrow>
     (\<forall>h. (Ev_insert h \<in> set (trace s) \<longleftrightarrow> h < created s)
        \<and> closes h (trace s) = (if h < created s \<and> h \<notin> set (registered s) then 1 else 0)
        \<and> resolved h (trace s) = (if h < created s \<and> h \<notin> set (registered s) then 1 else 0))"

definition at_most_once :: "scan_state \<Rightarrow> bool" where
  "at_most_once s \<longleftrightarrow> (\<forall>h. closes h (trace s) \<le> 1 \<and> resolved h (trace s) \<le> 1)"


definition admitted_ok :: "env \<Rightarrow> nat \<Rightarrow> scan_state \<Rightarrow> bool" where
  \<comment> \<open>every admission so far succeeded, and \<open>n\<close> targets were there at the start\<close>
  "admitted_ok env n s \<longleftrightarrow>
     (\<forall>k < created s. admit env k = Admit_ok) \<and> created s + length (tasks s) = n"

subsection \<open>Sample environments with a failing admission\<close>

definition fail_env :: "nat \<Rightarrow> admission \<Rightarrow> env" where
  \<comment> \<open>as \<open>demo_env\<close>, but the admission of socket \<open>k\<close> ends as \<open>a\<close>\<close>
  "fail_env k a = demo_env\<lparr>admit := (\<lambda>n. if n = k then a else Admit_ok)\<rparr>"

definition demo_state :: scan_state where
  \<comment> \<open>two attempts in flight, one target left\<close>
  "demo_state =
     \<lparr>tasks = [(''10.0.0.1'', 2907)],
      in_flight = [(0, ''10.0.0.1'', 2905, 0), (1, ''10.0.0.1'', 2906, 0)],
      registered = [0, 1], results = [], created = 2, polls = 0,
      trace = [Ev_socket 0 (''10.0.0.1'', 2905), Ev_insert 0,
               Ev_socket 1 (''10.0.0.1'', 2906), Ev_insert 1]\<rparr>"

definition resolutions :: "handle \<Rightarrow> event list \<Rightarrow> resolution list" where
  \<comment> \<open>how the attempt on socket \<open>h\<close> was resolved, once per resolution\<close>
  "resolutions h tr = [r. (h', t, r) \<leftarrow> dones tr, h' = h]"

definition expiry_events :: "time \<Rightarrow> time \<Rightarrow> handle \<times> string \<times> int \<times> time \<Rightarrow> event list" where
  "expiry_events now timeout e =
     (case e of (h, ip, port, start) \<Rightarrow>
        if timeout \<le> now - start then [Ev_close h, Ev_pop h, Ev_done h (ip, port) Timeout]
        else [])"

subsection \<open>Which clock decides\<close>

definition same_wall :: "env \<Rightarrow> env \<Rightarrow> bool" where
  \<comment> \<open>two environments that differ at most in what the monotonic clock reads\<close>
  "same_wall a b \<longleftrightarrow>
     admit a = admit b \<and> select_ready a = select_ready b \<and> so_error a = so_error b
     \<and> (\<forall>n. wall (admit_clock a n) = wall (admit_clock b n))
     \<and> (\<forall>k. wall (poll_clock a k) = wall (poll_clock b k))"

definition stamped :: "env \<Rightarrow> scan_state \<Rightarrow> bool" where
  \<comment> \<open>every \<open>start\<close> in \<open>in_flight\<close> is the system clock's reading at that admission\<close>
  "stamped env s \<longleftrightarrow>
     (\<forall>(h, ip, port, start) \<in> set (in_flight s). start = wall (admit_clock env h))"

definition skewed_env :: env where
  \<comment> \<open>as \<open>demo_env\<close>, but the system clock is set back an hour after the first admissions;
      the monotonic clock reads the same\<close>
  "skewed_env =
     demo_env\<lparr>poll_clock := (\<lambda>k. \<lparr>wall = of_nat k - 3600, mono = of_nat k\<rparr>)\<rparr>"

subsection \<open>Fixed outcomes per attempt\<close>

definition fated :: "env \<Rightarrow> time \<Rightarrow> (handle \<Rightarrow> resolution) \<Rightarrow> bool" where
  \<comment> \<open>the environment behaves as the fixed outcomes \<open>fate\<close> say: a socket that is reported
      writable has the fate its \<open>SO_ERROR\<close> gives, and a registered socket that is not
      reported when its deadline has passed has the fate \<open>Timeout\<close>\<close>
  "fated env T fate \<longleftrightarrow>
     (\<forall>k regs h. h \<in> set (select_ready env k regs) \<longrightarrow>
        fate h = (if so_error env h = 0 then Success else Failure))
   \<and> (\<forall>k regs h. h \<in> set regs \<and> h \<notin> set (select_ready env k regs)
        \<and> T \<le> wall (poll_clock env k) - wall (admit_clock env h) \<longrightarrow> fate h = Timeout)"

definition expected :: "(handle \<Rightarrow> resolution) \<Rightarrow> target list \<Rightarrow> (handle \<times> target \<times> resolution) list" where
  \<comment> \<open>attempt \<open>h\<close> is on the target number \<open>h\<close> and ends as \<open>fate h\<close>\<close>
  "expected fate ts = map (\<lambda>h. (h, ts ! h, fate h)) [0..<length ts]"

definition accounted :: "(handle \<Rightarrow> resolution) \<Rightarrow> target list \<Rightarrow> scan_state \<Rightarrow> bool" where
  \<comment> \<open>socket \<open>h\<close> is the attempt on target number \<open>h\<close> of \<open>ts\<close>; the attempts resolved are the
      sockets created and no longer registered, each once, as \<open>fate\<close> says\<close>
  "accounted fate ts s \<longleftrightarrow>
     tasks s = drop (created s) ts \<and> created s \<le> length ts
   \<and> (\<forall>(h, ip, port, start) \<in> set (in_flight s). (ip, port) = ts ! h)
   \<and> distinct (map fst (dones (trace s)))
   \<and> fst ` set (dones (trace s)) = {h. h < created s \<and> h \<notin> set (registered s)}
   \<and> (\<forall>(h, t, r) \<in> set (dones (trace s)). t = ts ! h \<and> r = fate h)
   \<and> results s = map (fst \<circ> snd) (filter (\<lambda>(h, t, r). r = Success) (dones (trace s)))"

definition demo_fate :: "handle \<Rightarrow> resolution" where
  "demo_fate h = (if h = 0 then Success else if h = 1 then Timeout else Failure)"

subsection \<open>Environments in which the scan ends\<close>

definition selects_registered :: "env \<Rightarrow> bool" where
  \<comment> \<open>\<open>select\<close> reports registered sockets only, each at most once\<close>
  "selects_registered env \<longleftrightarrow>
     (\<forall>k regs. distinct regs \<longrightarrow>
        distinct (select_ready env k regs) \<and> set (select_ready env k regs) \<subseteq> set regs)"

definition admits_all :: "env \<Rightarrow> nat \<Rightarrow> bool" where
  \<comment> \<open>the first \<open>n\<close> sockets can be created and registered\<close>
  "admits_all env n \<longleftrightarrow> (\<forall>k < n. admit env k = Admit_ok)"

definition deadlines_pass :: "env \<Rightarrow> time \<Rightarrow> nat \<Rightarrow> nat \<Rightarrow> bool" where
  \<comment> \<open>from poll \<open>K\<close> on, the system clock is \<open>timeout\<close> or more past the stamp of each of
      the first \<open>n\<close> sockets\<close>
  "deadlines_pass env T K n \<longleftrightarrow>
     (\<forall>k \<ge> K. \<forall>h < n. T \<le> wall (poll_clock env k) - wall (admit_clock env h))"

definition healthy :: "env \<Rightarrow> nat \<Rightarrow> scan_state \<Rightarrow> bool" where
  \<comment> \<open>a state of a scan of \<open>n\<close> targets\<close>
  "healthy env n s \<longleftrightarrow> wf_state s \<and> stamped env s \<and> created s + length (tasks s) = n"

definition budget :: "nat \<Rightarrow> scan_state \<Rightarrow> nat" where
  \<comment> \<open>a bound on the iterations left, once the deadlines pass from poll \<open>K\<close> on\<close>
  "budget K s = 2 * (K - polls s) + length (tasks s) + (if in_flight s = [] then 0 else 1)"

subsection \<open>The targets attempted, read off the trace\<close>

fun socket_of :: "event \<Rightarrow> target list" where
  "socket_of (Ev_socket h t) = [t]"
| "socket_of _ = []"

definition attempted :: "event list \<Rightarrow> target list" where
  \<comment> \<open>the targets a socket was created for, in the order of creation\<close>
  "attempted tr = concat (map socket_of tr)"

definition tried :: "target list \<Rightarrow> scan_state \<Rightarrow> bool" where
  \<comment> \<open>the targets attempted so far, followed by those the generator has yet to yield, are
      the targets \<open>ts\<close> of the scan\<close>
  "tried ts s \<longleftrightarrow> attempted (trace s) @ tasks s = ts"

section \<open>The generator\<close>

lemma gen_tasks_product: "gen_tasks ips ports = List.product ips ports"
proof -
  have inner: "concat (map (\<lambda>port. [(ip, port)]) ports) = map (Pair ip) ports" for ip :: string
    by (induction ports) simp_all
  show ?thesis
    unfolding gen_tasks_def by (induction ips) (simp_all add: inner)
qed

lemma length_gen_tasks: "length (gen_tasks ips ports) = total ips ports"
  by (simp add: gen_tasks_product total_def)

lemma nth_next_nth: "nth_next n ts = (if n < length ts then Some (ts ! n) else None)"
  by (induction n ts rule: nth_next.induct) (auto simp: next_task_def split: list.splits nat.splits)

text \<open>
  C6. The generator yields \<open>total ips ports\<close> targets and then stops: the call number \<open>n\<close>
  of \<open>next\<close> yields the pair of host \<open>n div length ports\<close> and port \<open>n mod length ports\<close>,
  so the hosts come in the order supplied, for each host the ports in the order supplied,
  each combination of a host position and a port position once; from call
  \<open>total ips ports\<close> on the answer is \<open>StopIteration\<close>. When neither list repeats an
  element, no target is yielded twice.
\<close>

theorem tasks_order:
  "nth_next n (gen_tasks ips ports) =
     (if n < total ips ports
      then Some (ips ! (n div length ports), ports ! (n mod length ports))
      else None)
   \<and> (distinct ips \<and> distinct ports \<longrightarrow> distinct (gen_tasks ips ports))"
  by (simp add: nth_next_nth gen_tasks_product product_nth distinct_product total_def
      del: nth_next.simps)

theorem tasks_order_witness:
  "nth_next 2 (gen_tasks [''10.0.0.1'', ''10.0.0.2''] [2905, 2906]) = Some (''10.0.0.2'', 2905)
   \<and> nth_next 4 (gen_tasks [''10.0.0.1'', ''10.0.0.2''] [2905, 2906]) = None
   \<and> distinct [''10.0.0.1'', ''10.0.0.2''] \<and> distinct [2905, 2906 :: int]
   \<and> distinct (gen_tasks [''10.0.0.1'', ''10.0.0.2''] [2905, 2906])"
  using tasks_order [of 2 "[''10.0.0.1'', ''10.0.0.2'']" "[2905, 2906]"]
    tasks_order [of 4 "[''10.0.0.1'', ''10.0.0.2'']" "[2905, 2906]"]
  by (simp add: total_def numeral_2_eq_2 [symmetric] del: nth_next.simps)

section \<open>The ASPUP message\<close>

lemma build_m3ua_aspup_bytes: "build_m3ua_aspup = Some [0x01, 0x00, 0x03, 0x01, 0, 0, 0, 8]"
  by (simp add: build_m3ua_aspup_def struct_pack_def pack_B_def pack_I_def)

text \<open>
  C10. \<open>build_m3ua_aspup\<close> returns eight bytes: version 1, reserved 0, message class 3,
  message type 1, and a four-byte length field in network order whose value, 8, is the
  length of the message.
\<close>

theorem build_m3ua_aspup_header:
  "\<exists>msg. build_m3ua_aspup = Some msg
     \<and> msg = [0x01, 0x00, 0x03, 0x01, 0, 0, 0, 8]
     \<and> length msg = 8
     \<and> unpack_I (drop 4 msg) = int (length msg)"
  by (simp add: build_m3ua_aspup_bytes unpack_I_def)

section \<open>Invariants of the event loop\<close>

lemma pop_SomeD: "pop h d = Some (v, d') \<Longrightarrow> map_of d h = Some v \<and> d' = AList.delete h d"
  by (auto simp: pop_def split: option.splits)

lemma pop_None_iff: "pop h d = None \<longleftrightarrow> h \<notin> fst ` set d"
  by (simp add: pop_def map_of_eq_None_iff [symmetric] split: option.splits)

lemma map_fst_delete: "map fst (AList.delete h d) = removeAll h (map fst d)"
  by (induction d) auto

lemma update_fresh: "h \<notin> fst ` set d \<Longrightarrow> AList.update h v d = d @ [(h, v)]"
  by (induction d) auto

lemma wf_state_keys: "wf_state s \<Longrightarrow> distinct (map fst (in_flight s))"
  by (auto simp: wf_state_def)

lemma preserved_wf: "preserved P Q env c T \<Longrightarrow> P s \<Longrightarrow> wf_state s"
  by (simp add: preserved_def)

lemma preserved_weaken: "preserved P Q env c T \<Longrightarrow> P s \<Longrightarrow> Q s"
  by (simp add: preserved_def)

lemma preserved_admit:
  "preserved P Q env c T \<Longrightarrow> P s \<Longrightarrow> tasks s = t # rest \<Longrightarrow> int (length (in_flight s)) < c \<Longrightarrow>
   (case admit_one env t (s\<lparr>tasks := rest\<rparr>) of Inl (e, s') \<Rightarrow> Q s' | Inr s' \<Rightarrow> P s')"
  unfolding preserved_def by (elim conjE) (drule spec [of _ s], drule spec [of _ t], drule spec [of _ rest], simp)

lemma preserved_poll: "preserved P Q env c T \<Longrightarrow> P s \<Longrightarrow> P (s\<lparr>polls := Suc (polls s)\<rparr>)"
  by (simp add: preserved_def)

lemma preserved_ready:
  "preserved P Q env c T \<Longrightarrow> P s \<Longrightarrow> pop h (in_flight s) = Some ((ip, port, start), d) \<Longrightarrow>
   h \<in> set (registered s) \<Longrightarrow> polls s = Suc k \<Longrightarrow> h \<in> set regs \<Longrightarrow>
   h \<in> set (select_ready env k regs) \<Longrightarrow> P (resolve_ready env h ip port (s\<lparr>in_flight := d\<rparr>))"
  unfolding preserved_def by blast

lemma preserved_expire:
  "preserved P Q env c T \<Longrightarrow> P s \<Longrightarrow> pop h (in_flight s) = Some ((ip, port, start), d) \<Longrightarrow>
   h \<in> set (registered s) \<Longrightarrow> polls s = Suc k \<Longrightarrow> h \<in> set regs \<Longrightarrow>
   h \<notin> set (select_ready env k regs) \<Longrightarrow> T \<le> time_time (poll_clock env k) - start \<Longrightarrow>
   P (expire h ip port d s)"
  unfolding preserved_def by blast

lemma wf_state_fresh: "wf_state s \<Longrightarrow> created s \<notin> fst ` set (in_flight s)"
proof
  assume wf: "wf_state s" and "created s \<in> fst ` set (in_flight s)"
  then have "created s \<in> set (registered s)" by (simp add: wf_state_def)
  with wf have "created s < created s" unfolding wf_state_def by blast
  then show False by simp
qed

lemma wf_admit:
  assumes wf: "wf_state s" and ad: "admit_one env t s = Inr s'"
  shows "wf_state s'"
proof -
  let ?h = "created s"
  from ad have s': "registered s' = registered s @ [?h]"
    "in_flight s' = AList.update ?h (fst t, snd t, time_time (admit_clock env ?h)) (in_flight s)"
    "created s' = Suc ?h"
    by (auto simp: admit_one_def Let_def split: admission.splits)
  from wf have fresh: "?h \<notin> fst ` set (in_flight s)" by (rule wf_state_fresh)
  from wf have reg: "registered s = map fst (in_flight s)" "distinct (registered s)"
    "\<forall>h \<in> set (registered s). h < ?h"
    unfolding wf_state_def by blast+
  from fresh reg have "?h \<notin> set (registered s)" by simp
  with reg fresh show ?thesis
    unfolding wf_state_def s' by (auto simp: update_fresh less_Suc_eq)
qed

lemma wf_resolve_ready:
  "wf_state s \<Longrightarrow> pop h (in_flight s) = Some (v, d) \<Longrightarrow>
   wf_state (resolve_ready env h ip port (s\<lparr>in_flight := d\<rparr>))"
  by (auto simp: wf_state_def resolve_ready_def Let_def map_fst_delete distinct_removeAll
      dest!: pop_SomeD)

lemma wf_expire:
  "wf_state s \<Longrightarrow> pop h (in_flight s) = Some (v, d) \<Longrightarrow> wf_state (expire h ip port d s)"
  by (auto simp: wf_state_def expire_def map_fst_delete distinct_removeAll dest!: pop_SomeD)

lemma refill_preserved:
  "preserved P Q env c T \<Longrightarrow> P s \<Longrightarrow>
    (case refill env c s of
       Inl (e, s') \<Rightarrow> Q s'
     | Inr s' \<Rightarrow> P s' \<and> (tasks s' = [] \<or> c \<le> int (length (in_flight s'))))"
proof (induction env c s rule: refill.induct)
  case (1 env c s)
  note pr = \<open>preserved P Q env c T\<close> and Ps = \<open>P s\<close>
  show ?case
  proof (cases "int (length (in_flight s)) < c")
    case False
    with Ps show ?thesis by (subst refill.simps) simp
  next
    case lt: True
    show ?thesis
    proof (cases "tasks s")
      case Nil
      with Ps lt show ?thesis by (subst refill.simps) (simp add: next_task_def)
    next
      case (Cons t rest)
      from pr Ps Cons lt
      have step: "case admit_one env t (s\<lparr>tasks := rest\<rparr>) of Inl (e, s') \<Rightarrow> Q s' | Inr s' \<Rightarrow> P s'"
        by (rule preserved_admit)
      show ?thesis
      proof (cases "admit_one env t (s\<lparr>tasks := rest\<rparr>)")
        case (Inl es)
        with step Cons lt show ?thesis
          by (subst refill.simps) (simp add: next_task_def split: prod.splits)
      next
        case (Inr s')
        with step have "P s'" by simp
        have nt: "next_task (tasks s) = Some (t, rest)" using Cons by (simp add: next_task_def)
        from "1.IH" [OF lt nt refl Inr pr \<open>P s'\<close>] Inr lt nt show ?thesis
          by (subst refill.simps) simp
      qed
    qed
  qed
qed


lemma pop_in_keys: "pop h d = Some (v, d') \<Longrightarrow> h \<in> fst ` set d"
  using pop_None_iff [of h d] by auto

lemma pop_entry:
  "distinct (map fst d) \<Longrightarrow> (h, v) \<in> set d \<Longrightarrow> pop h d = Some (v, AList.delete h d)"
  by (simp add: pop_def)

lemma set_delete_keep:
  "(h', v) \<in> set d \<Longrightarrow> h' \<noteq> h \<Longrightarrow> (h', v) \<in> set (AList.delete h d)"
  by (induction d) auto

lemma handle_ready_preserved:
  assumes pr: "preserved P Q env c T"
  shows "P s \<Longrightarrow> polls s = Suc k \<Longrightarrow> set hs \<subseteq> set (select_ready env k regs) \<Longrightarrow>
    set (registered s) \<subseteq> set regs \<Longrightarrow>
    (case handle_ready env hs s of
       Inl (e, s') \<Rightarrow> Q s'
     | Inr s' \<Rightarrow> P s' \<and> polls s' = Suc k \<and> set (registered s') \<subseteq> set (registered s)
                \<and> set hs \<inter> set (registered s') = {})"
proof (induction hs arbitrary: s)
  case Nil
  then show ?case by simp
next
  case (Cons h hs)
  note Ps = \<open>P s\<close>
  from pr Ps have wf: "wf_state s" by (rule preserved_wf)
  show ?case
  proof (cases "pop h (in_flight s)")
    case None
    with pr Ps show ?thesis by (simp add: preserved_weaken)
  next
    case (Some a)
    obtain ip port start d where a: "a = ((ip, port, start), d)"
      by (metis prod.exhaust)
    from Some a have popd: "pop h (in_flight s) = Some ((ip, port, start), d)" by simp
    from popd have "h \<in> fst ` set (in_flight s)" by (rule pop_in_keys)
    with wf have hreg: "h \<in> set (registered s)" by (simp add: wf_state_def)
    let ?s1 = "resolve_ready env h ip port (s\<lparr>in_flight := d\<rparr>)"
    from Cons.prems hreg have "h \<in> set regs" "h \<in> set (select_ready env k regs)" by auto
    with pr Ps popd hreg Cons.prems(2) have P1: "P ?s1"
      by (rule preserved_ready)
    have eqs: "polls ?s1 = Suc k" "registered ?s1 = removeAll h (registered s)"
      using Cons.prems(2) by (simp_all add: resolve_ready_def Let_def)
    from Cons.prems eqs have sub: "set hs \<subseteq> set (select_ready env k regs)"
      "set (registered ?s1) \<subseteq> set regs" by auto
    from Cons.IH [OF P1 eqs(1) sub]
    have IH: "case handle_ready env hs ?s1 of
       Inl (e, s') \<Rightarrow> Q s'
     | Inr s' \<Rightarrow> P s' \<and> polls s' = Suc k \<and> set (registered s') \<subseteq> set (registered ?s1)
                \<and> set hs \<inter> set (registered s') = {}" .
    have unfold: "handle_ready env (h # hs) s = handle_ready env hs ?s1"
      using popd hreg by simp
    show ?thesis
      unfolding unfold using IH eqs(2) by (auto split: sum.splits prod.splits)
  qed
qed

lemma sweep_preserved:
  assumes pr: "preserved P Q env c T"
  shows "P s \<Longrightarrow> polls s = Suc k \<Longrightarrow> set snap \<subseteq> set (in_flight s) \<Longrightarrow>
    distinct (map fst snap) \<Longrightarrow> set (registered s) \<subseteq> set regs \<Longrightarrow>
    set (select_ready env k regs) \<inter> set (registered s) = {} \<Longrightarrow>
    (case sweep (time_time (poll_clock env k)) T snap s of
       Inl (e, s') \<Rightarrow> Q s'
     | Inr s' \<Rightarrow> P s')"
proof (induction snap arbitrary: s)
  case Nil
  then show ?case by simp
next
  case (Cons x rest)
  obtain h ip port start where x: "x = (h, ip, port, start)"
    by (metis prod.exhaust)
  note Ps = \<open>P s\<close>
  from pr Ps have wf: "wf_state s" by (rule preserved_wf)
  let ?now = "time_time (poll_clock env k)"
  show ?case
  proof (cases "T \<le> ?now - start")
    case False
    from Cons.prems have "set rest \<subseteq> set (in_flight s)" "distinct (map fst rest)" by auto
    from Cons.IH [OF Ps Cons.prems(2) this Cons.prems(5,6)] False x show ?thesis by simp
  next
    case True
    from Cons.prems x have mem: "(h, ip, port, start) \<in> set (in_flight s)" by simp
    from wf have dk: "distinct (map fst (in_flight s))" by (rule wf_state_keys)
    let ?d = "AList.delete h (in_flight s)"
    from dk mem have popd: "pop h (in_flight s) = Some ((ip, port, start), ?d)"
      by (rule pop_entry)
    from mem have "h \<in> fst ` set (in_flight s)" by force
    with wf have hreg: "h \<in> set (registered s)" by (simp add: wf_state_def)
    with Cons.prems have hregs: "h \<in> set regs" "h \<notin> set (select_ready env k regs)" by auto
    let ?s1 = "expire h ip port ?d s"
    from pr Ps popd hreg Cons.prems(2) hregs True have P1: "P ?s1"
      by (rule preserved_expire)
    have eqs: "polls ?s1 = Suc k" "registered ?s1 = removeAll h (registered s)"
      "in_flight ?s1 = ?d"
      using Cons.prems(2) by (simp_all add: expire_def)
    have rest_in: "set rest \<subseteq> set (in_flight ?s1)"
    proof
      fix y assume y: "y \<in> set rest"
      with Cons.prems(4) x have "fst y \<noteq> h" by force
      moreover from y Cons.prems(3) have "y \<in> set (in_flight s)" by auto
      ultimately show "y \<in> set (in_flight ?s1)"
        unfolding eqs by (cases y) (simp add: set_delete_keep)
    qed
    from Cons.prems have dr: "distinct (map fst rest)" by simp
    from Cons.prems eqs have sub: "set (registered ?s1) \<subseteq> set regs"
      "set (select_ready env k regs) \<inter> set (registered ?s1) = {}" by auto
    from Cons.IH [OF P1 eqs(1) rest_in dr sub]
    show ?thesis using x True hreg popd by simp
  qed
qed

lemma poll_once_preserved:
  assumes pr: "preserved P Q env c T" and Ps: "P s"
  shows "case poll_once env T s of Inl (e, s') \<Rightarrow> Q s' | Inr s' \<Rightarrow> P s'"
proof -
  let ?k = "polls s" and ?regs = "registered s"
  let ?s0 = "s\<lparr>polls := Suc ?k\<rparr>"
  from pr Ps have P0: "P ?s0" by (rule preserved_poll)
  have hr: "case handle_ready env (select_ready env ?k ?regs) ?s0 of
       Inl (e, s') \<Rightarrow> Q s'
     | Inr s' \<Rightarrow> P s' \<and> polls s' = Suc ?k \<and> set (registered s') \<subseteq> set (registered ?s0)
                \<and> set (select_ready env ?k ?regs) \<inter> set (registered s') = {}"
    by (rule handle_ready_preserved [OF pr P0, where regs = "registered s"]) simp_all
  show ?thesis
  proof (cases "handle_ready env (select_ready env ?k ?regs) ?s0")
    case (Inl es)
    with hr show ?thesis by (simp add: poll_once_def Let_def)
  next
    case (Inr s1)
    with hr have s1: "P s1" "polls s1 = Suc ?k" "set (registered s1) \<subseteq> set ?regs"
      "set (select_ready env ?k ?regs) \<inter> set (registered s1) = {}" by simp_all
    from pr s1(1) have "wf_state s1" by (rule preserved_wf)
    then have "distinct (map fst (in_flight s1))" by (rule wf_state_keys)
    from sweep_preserved [OF pr s1(1,2) subset_refl this s1(3,4)] Inr
    show ?thesis by (simp add: poll_once_def Let_def)
  qed
qed

lemma event_loop_preserved:
  assumes pr: "preserved P Q env c T"
  shows "P s \<Longrightarrow>
    (case event_loop env c T fuel s of
       Returned s' \<Rightarrow> P s' \<and> in_flight s' = [] \<and> (0 < c \<longrightarrow> tasks s' = [])
     | Raised e s' \<Rightarrow> Q s'
     | Running s' \<Rightarrow> P s')"
proof (induction fuel arbitrary: s)
  case 0
  then show ?case by simp
next
  case (Suc fuel)
  from refill_preserved [OF pr Suc.prems]
  have rf: "case refill env c s of
       Inl (e, s') \<Rightarrow> Q s'
     | Inr s' \<Rightarrow> P s' \<and> (tasks s' = [] \<or> c \<le> int (length (in_flight s')))" .
  show ?case
  proof (cases "refill env c s")
    case (Inl es)
    with rf show ?thesis by (simp split: prod.splits)
  next
    case (Inr s1)
    with rf have s1: "P s1" "tasks s1 = [] \<or> c \<le> int (length (in_flight s1))" by simp_all
    show ?thesis
    proof (cases "in_flight s1 = []")
      case True
      with Inr s1 show ?thesis by auto
    next
      case False
      from poll_once_preserved [OF pr s1(1)]
      have po: "case poll_once env T s1 of Inl (e, s') \<Rightarrow> Q s' | Inr s' \<Rightarrow> P s'" .
      show ?thesis
      proof (cases "poll_once env T s1")
        case (Inl es)
        with po Inr False show ?thesis by (simp split: prod.splits)
      next
        case (Inr s2)
        with po have "P s2" by simp
        from Suc.IH [OF this] Inr \<open>refill env c s = Inr s1\<close> False show ?thesis by simp
      qed
    qed
  qed
qed

section \<open>The concurrency bound\<close>

lemma live_snoc [simp]: "live (tr @ [e]) = live tr + delta e"
  by (simp add: live_def)

lemma live_Nil [simp]: "live [] = 0"
  by (simp add: live_def)

lemma live_Cons [simp]: "live (e # tr) = delta e + live tr"
  by (simp add: live_def)

lemma live_append [simp]: "live (xs @ ys) = live xs + live ys"
  by (simp add: live_def)

lemma capped_Nil: "capped c [] \<longleftrightarrow> 0 \<le> c"
  by (simp add: capped_def)

lemma capped_snoc:
  "capped c (tr @ [e]) \<longleftrightarrow>
     capped c tr \<and> live tr + delta e \<le> c \<and> ((\<exists>h t. e = Ev_socket h t) \<longrightarrow> live tr < c)"
  unfolding capped_def by (auto simp: prefix_snoc) blast+

lemma capped_live: "capped c tr \<Longrightarrow> live tr \<le> c"
  by (simp add: capped_def)

lemma capped_snoc2:
  "capped c (tr @ [a, b]) \<longleftrightarrow> capped c ((tr @ [a]) @ [b])"
  by simp

lemma capped_snoc3:
  "capped c (tr @ [a, b, d]) \<longleftrightarrow> capped c (((tr @ [a]) @ [b]) @ [d])"
  by simp

lemma length_delete:
  "distinct (map fst d) \<Longrightarrow> h \<in> fst ` set d \<Longrightarrow> int (length (AList.delete h d)) = int (length d) - 1"
  by (induction d) (auto simp: AList.delete_id rev_image_eqI)

lemma wf_state_update [simp]:
  "wf_state (s\<lparr>polls := k\<rparr>) = wf_state s"
  "wf_state (s\<lparr>tasks := ts\<rparr>) = wf_state s"
  "wf_state (s\<lparr>results := rs\<rparr>) = wf_state s"
  "wf_state (s\<lparr>trace := tr\<rparr>) = wf_state s"
  by (auto simp: wf_state_def)

lemma size_inv_update [simp]:
  "size_inv c (s\<lparr>polls := k\<rparr>) = size_inv c s"
  "size_inv c (s\<lparr>tasks := ts\<rparr>) = size_inv c s"
  by (simp_all add: size_inv_def)

lemma size_inv_preserved:
  "preserved (\<lambda>s. wf_state s \<and> size_inv c s) (size_inv c) env c T"
  unfolding preserved_def
proof (intro conjI allI impI)
  fix s t rest
  assume a: "(wf_state s \<and> size_inv c s) \<and> tasks s = t # rest \<and> int (length (in_flight s)) < c"
  then have wf: "wf_state (s\<lparr>tasks := rest\<rparr>)" by (auto simp: wf_state_def)
  from a have fresh: "created s \<notin> fst ` set (in_flight s)" by (simp add: wf_state_fresh)
  show "case admit_one env t (s\<lparr>tasks := rest\<rparr>) of
          Inl (e, s') \<Rightarrow> size_inv c s' | Inr s' \<Rightarrow> wf_state s' \<and> size_inv c s'"
  proof (cases "admit_one env t (s\<lparr>tasks := rest\<rparr>)")
    case (Inl es)
    with a show ?thesis
      by (auto simp: admit_one_def Let_def size_inv_def capped_snoc split: admission.splits)
  next
    case (Inr s')
    from wf Inr have "wf_state s'" by (rule wf_admit)
    moreover from Inr a fresh have "size_inv c s'"
      by (auto simp: admit_one_def Let_def size_inv_def capped_snoc capped_snoc2 update_fresh
          simp del: append_assoc split: admission.splits)
    ultimately show ?thesis using Inr by simp
  qed
next
  fix s h ip port start d k regs
  assume a: "(wf_state s \<and> size_inv c s) \<and> pop h (in_flight s) = Some ((ip, port, start), d)
    \<and> h \<in> set (registered s) \<and> polls s = Suc k \<and> h \<in> set regs \<and> h \<in> set (select_ready env k regs)"
  then have d: "d = AList.delete h (in_flight s)" "h \<in> fst ` set (in_flight s)"
    by (auto dest: pop_SomeD pop_in_keys)
  from a have "distinct (map fst (in_flight s))" by (simp add: wf_state_keys)
  from length_delete [OF this d(2)] a d(1)
  show "size_inv c (resolve_ready env h ip port (s\<lparr>in_flight := d\<rparr>))"
    by (auto dest: capped_live simp: resolve_ready_def Let_def size_inv_def capped_snoc capped_snoc3
        simp del: append_assoc)
  from a show "wf_state (resolve_ready env h ip port (s\<lparr>in_flight := d\<rparr>))"
    by (simp add: wf_resolve_ready)
next
  fix s h ip port start d k regs
  assume a: "(wf_state s \<and> size_inv c s) \<and> pop h (in_flight s) = Some ((ip, port, start), d)
    \<and> h \<in> set (registered s) \<and> polls s = Suc k \<and> h \<in> set regs \<and> h \<notin> set (select_ready env k regs)
    \<and> T \<le> time_time (poll_clock env k) - start"
  then have d: "d = AList.delete h (in_flight s)" "h \<in> fst ` set (in_flight s)"
    by (auto dest: pop_SomeD pop_in_keys)
  from a have "distinct (map fst (in_flight s))" by (simp add: wf_state_keys)
  from length_delete [OF this d(2)] a d(1)
  show "size_inv c (expire h ip port d s)"
    by (auto dest: capped_live simp: expire_def size_inv_def capped_snoc capped_snoc3 simp del: append_assoc)
  from a show "wf_state (expire h ip port d s)"
    by (simp add: wf_expire)
qed simp_all

lemma init_state_wf: "wf_state (init_state ips ports)"
  by (simp add: wf_state_def init_state_def)

text \<open>
  C1. With \<open>concurrency > 0\<close>, whatever the environment does and however long the loop
  has run (also when it raised): after every call made so far, the number of entries of
  \<open>in_flight\<close> (inserts minus pops, which is the length of the dict) is at most
  \<open>concurrency\<close>, and whenever a socket is created for a new attempt the number of
  entries is below \<open>concurrency\<close>.
\<close>

theorem in_flight_bounded:
  assumes "0 < concurrency"
  shows "let s = state_of (scan_sctp env ips ports concurrency timeout fuel) in
    int (length (in_flight s)) = live (trace s)
    \<and> (\<forall>p. prefix p (trace s) \<longrightarrow> live p \<le> concurrency)
    \<and> (\<forall>p h t. prefix (p @ [Ev_socket h t]) (trace s) \<longrightarrow> live p < concurrency)"
proof -
  let ?P = "\<lambda>s. wf_state s \<and> size_inv concurrency s"
  have "size_inv concurrency (init_state ips ports)"
    using assms by (simp add: size_inv_def capped_Nil init_state_def)
  with init_state_wf have "?P (init_state ips ports)" by simp
  from event_loop_preserved [OF size_inv_preserved this, where fuel = fuel and env = env and T = timeout]
  have "size_inv concurrency (state_of (scan_sctp env ips ports concurrency timeout fuel))"
    by (auto simp: scan_sctp_def state_of_def split: outcome.splits)
  then show ?thesis
    by (simp add: size_inv_def capped_def Let_def)
qed


lemma demo_run_1:
  "scan_sctp demo_env [''10.0.0.1''] [2905, 2906, 2907] 2 1 1 =
     Running
       \<lparr>tasks = [(''10.0.0.1'', 2907)], in_flight = [(1, ''10.0.0.1'', 2906, 0)],
        registered = [1], results = [(''10.0.0.1'', 2905)], created = 2, polls = 1,
        trace = [Ev_socket 0 (''10.0.0.1'', 2905), Ev_insert 0,
                 Ev_socket 1 (''10.0.0.1'', 2906), Ev_insert 1,
                 Ev_pop 0, Ev_close 0, Ev_done 0 (''10.0.0.1'', 2905) Success]\<rparr>"
  by (simp add: scan_sctp_def init_state_def gen_tasks_def demo_env_def next_task_def
      refill.simps admit_one_def pop_def poll_once_def resolve_ready_def expire_def time_time_def)

theorem in_flight_bounded_witness:
  "(0 :: int) < 2
   \<and> prefix ([Ev_socket 0 (''10.0.0.1'', 2905), Ev_insert 0] @ [Ev_socket 1 (''10.0.0.1'', 2906)])
        (trace (state_of (scan_sctp demo_env [''10.0.0.1''] [2905, 2906, 2907] 2 1 1)))
   \<and> live [Ev_socket 0 (''10.0.0.1'', 2905), Ev_insert 0] < 2
   \<and> int (length (in_flight (state_of (scan_sctp demo_env [''10.0.0.1''] [2905, 2906, 2907] 2 1 1))))
       = live (trace (state_of (scan_sctp demo_env [''10.0.0.1''] [2905, 2906, 2907] 2 1 1)))"
proof -
  let ?s = "state_of (scan_sctp demo_env [''10.0.0.1''] [2905, 2906, 2907] 2 1 1)"
  have pre: "prefix ([Ev_socket 0 (''10.0.0.1'', 2905), Ev_insert 0] @ [Ev_socket 1 (''10.0.0.1'', 2906)])
        (trace ?s)"
    unfolding demo_run_1 by (simp add: state_of_def)
  have pos: "(0 :: int) < 2" by simp
  from in_flight_bounded [OF pos, of demo_env "[''10.0.0.1'']" "[2905, 2906, 2907]" 1 1]
  have "int (length (in_flight ?s)) = live (trace ?s)"
    and "\<forall>p h t. prefix (p @ [Ev_socket h t]) (trace ?s) \<longrightarrow> live p < 2"
    by (simp_all add: Let_def)
  with pre pos show ?thesis by blast
qed

section \<open>Resolution of ready sockets\<close>

lemma dones_simps [simp]:
  "dones [] = []"
  "dones (e # tr) = done_of e @ dones tr"
  "dones (xs @ ys) = dones xs @ dones ys"
  by (simp_all add: dones_def)

lemma resolved_simps [simp]:
  "resolved h [] = 0"
  "resolved h (xs @ ys) = resolved h xs + resolved h ys"
  "resolved h (Ev_done h' t r # tr) = (if h' = h then 1 else 0) + resolved h tr"
  "resolved h (Ev_socket h' t # tr) = resolved h tr"
  "resolved h (Ev_insert h' # tr) = resolved h tr"
  "resolved h (Ev_pop h' # tr) = resolved h tr"
  "resolved h (Ev_close h' # tr) = resolved h tr"
  by (simp_all add: resolved_def)

lemma closes_simps [simp]:
  "closes h [] = 0"
  "closes h (xs @ ys) = closes h xs + closes h ys"
  "closes h (e # tr) = (if e = Ev_close h then 1 else 0) + closes h tr"
  by (simp_all add: closes_def)

lemma results_inv_update [simp]:
  "results_inv env (s\<lparr>polls := k\<rparr>) = results_inv env s"
  "results_inv env (s\<lparr>tasks := ts\<rparr>) = results_inv env s"
  by (simp_all add: results_inv_def)

lemma results_inv_preserved:
  "preserved (\<lambda>s. wf_state s \<and> results_inv env s) (results_inv env) env c T"
  unfolding preserved_def
proof (intro conjI allI impI)
  fix s t rest
  assume a: "(wf_state s \<and> results_inv env s) \<and> tasks s = t # rest \<and> int (length (in_flight s)) < c"
  then have wf: "wf_state (s\<lparr>tasks := rest\<rparr>)" by simp
  show "case admit_one env t (s\<lparr>tasks := rest\<rparr>) of
          Inl (e, s') \<Rightarrow> results_inv env s' | Inr s' \<Rightarrow> wf_state s' \<and> results_inv env s'"
  proof (cases "admit_one env t (s\<lparr>tasks := rest\<rparr>)")
    case (Inl es)
    with a show ?thesis
      by (auto simp: admit_one_def Let_def results_inv_def split: admission.splits)
  next
    case (Inr s')
    from wf Inr have "wf_state s'" by (rule wf_admit)
    moreover from Inr a have "results_inv env s'"
      by (auto simp: admit_one_def Let_def results_inv_def split: admission.splits)
    ultimately show ?thesis using Inr by simp
  qed
next
  fix s h ip port start d k regs
  assume a: "(wf_state s \<and> results_inv env s) \<and> pop h (in_flight s) = Some ((ip, port, start), d)
    \<and> h \<in> set (registered s) \<and> polls s = Suc k \<and> h \<in> set regs \<and> h \<in> set (select_ready env k regs)"
  then show "results_inv env (resolve_ready env h ip port (s\<lparr>in_flight := d\<rparr>))"
    by (simp add: resolve_ready_def Let_def results_inv_def)
  from a show "wf_state (resolve_ready env h ip port (s\<lparr>in_flight := d\<rparr>))"
    by (simp add: wf_resolve_ready)
next
  fix s h ip port start d k regs
  assume a: "(wf_state s \<and> results_inv env s) \<and> pop h (in_flight s) = Some ((ip, port, start), d)
    \<and> h \<in> set (registered s) \<and> polls s = Suc k \<and> h \<in> set regs \<and> h \<notin> set (select_ready env k regs)
    \<and> T \<le> time_time (poll_clock env k) - start"
  then show "results_inv env (expire h ip port d s)"
    by (simp add: expire_def results_inv_def)
  from a show "wf_state (expire h ip port d s)"
    by (simp add: wf_expire)
qed simp_all

lemma handle_ready_effect:
  "wf_state s \<Longrightarrow> handle_ready env hs s = Inr s' \<Longrightarrow>
     distinct hs \<and> set hs \<subseteq> set (registered s)
     \<and> wf_state s'
     \<and> registered s' = filter (\<lambda>h. h \<notin> set hs) (registered s)
     \<and> in_flight s' = filter (\<lambda>e. fst e \<notin> set hs) (in_flight s)
     \<and> results s' = results s @ concat (map (ready_results env (in_flight s)) hs)
     \<and> trace s' = trace s @ concat (map (ready_events env (in_flight s)) hs)"
proof (induction hs arbitrary: s)
  case Nil
  then show ?case by simp
next
  case (Cons h hs)
  from Cons.prems(2) obtain ip port start d where
    popd: "pop h (in_flight s) = Some ((ip, port, start), d)"
    by (auto split: option.splits)
  from Cons.prems(2) popd have hreg: "h \<in> set (registered s)"
    by (auto split: if_splits)
  let ?s1 = "resolve_ready env h ip port (s\<lparr>in_flight := d\<rparr>)"
  from Cons.prems(2) popd hreg have run: "handle_ready env hs ?s1 = Inr s'" by simp
  from Cons.prems(1) popd have wf1: "wf_state ?s1" by (rule wf_resolve_ready)
  from popd have d: "d = AList.delete h (in_flight s)" "map_of (in_flight s) h = Some (ip, port, start)"
    by (auto dest: pop_SomeD)
  have s1: "registered ?s1 = removeAll h (registered s)" "in_flight ?s1 = AList.delete h (in_flight s)"
    "results ?s1 = results s @ ready_results env (in_flight s) h"
    "trace ?s1 = trace s @ ready_events env (in_flight s) h"
    using d by (simp_all add: resolve_ready_def Let_def ready_results_def ready_events_def)
  note IH = Cons.IH [OF wf1 run]
  from IH s1(1) have nin: "h \<notin> set hs" by auto
  have same: "map (ready_results env (AList.delete h (in_flight s))) hs
               = map (ready_results env (in_flight s)) hs"
    "map (ready_events env (AList.delete h (in_flight s))) hs
               = map (ready_events env (in_flight s)) hs"
    using nin by (auto simp: ready_results_def ready_events_def AList.delete_conv)
  from IH nin hreg show ?case
    unfolding s1 same
    by (auto simp: removeAll_filter_not_eq AList.delete_eq intro!: filter_cong)
qed


lemma scan_preserved:
  assumes "preserved P Q env c T" and "P (init_state ips ports)"
  shows "case scan_sctp env ips ports c T fuel of
       Returned s' \<Rightarrow> P s' \<and> in_flight s' = [] \<and> (0 < c \<longrightarrow> tasks s' = [])
     | Raised e s' \<Rightarrow> Q s'
     | Running s' \<Rightarrow> P s'"
  unfolding scan_sctp_def using assms by (rule event_loop_preserved)

lemma init_state_simps [simp]:
  "tasks (init_state ips ports) = gen_tasks ips ports"
  "in_flight (init_state ips ports) = []"
  "registered (init_state ips ports) = []"
  "results (init_state ips ports) = []"
  "created (init_state ips ports) = 0"
  "polls (init_state ips ports) = 0"
  "trace (init_state ips ports) = []"
  by (simp_all add: init_state_def)

lemma demo_run_3:
  "scan_sctp demo_env [''10.0.0.1''] [2905, 2906, 2907] 2 1 3 =
     Returned
       \<lparr>tasks = [], in_flight = [], registered = [], results = [(''10.0.0.1'', 2905)],
        created = 3, polls = 2,
        trace = [Ev_socket 0 (''10.0.0.1'', 2905), Ev_insert 0,
                 Ev_socket 1 (''10.0.0.1'', 2906), Ev_insert 1,
                 Ev_pop 0, Ev_close 0, Ev_done 0 (''10.0.0.1'', 2905) Success,
                 Ev_socket 2 (''10.0.0.1'', 2907), Ev_insert 2,
                 Ev_pop 2, Ev_close 2, Ev_done 2 (''10.0.0.1'', 2907) Failure,
                 Ev_close 1, Ev_pop 1, Ev_done 1 (''10.0.0.1'', 2906) Timeout]\<rparr>"
  by (simp add: scan_sctp_def init_state_def gen_tasks_def demo_env_def next_task_def
      refill.simps admit_one_def pop_def poll_once_def resolve_ready_def expire_def time_time_def
      numeral_3_eq_3)

lemma demo_state_wf: "wf_state demo_state"
  by (simp add: wf_state_def demo_state_def)

section \<open>The life of an attempt\<close>

lemma lifecycle_update [simp]:
  "lifecycle (s\<lparr>polls := k\<rparr>) = lifecycle s"
  "lifecycle (s\<lparr>tasks := ts\<rparr>) = lifecycle s"
  by (simp_all add: lifecycle_def)

lemma lifecycle_at_most_once: "lifecycle s \<Longrightarrow> at_most_once s"
  by (simp add: lifecycle_def at_most_once_def)

lemma wf_state_registered_less: "wf_state s \<Longrightarrow> h \<in> set (registered s) \<Longrightarrow> h < created s"
  by (simp add: wf_state_def)

lemma lifecycleD:
  assumes "lifecycle s"
  shows "Ev_insert h \<in> set (trace s) \<longleftrightarrow> h < created s"
    and "closes h (trace s) = (if h < created s \<and> h \<notin> set (registered s) then 1 else 0)"
    and "resolved h (trace s) = (if h < created s \<and> h \<notin> set (registered s) then 1 else 0)"
  using assms unfolding lifecycle_def by blast+

lemma lifecycle_admit:
  assumes wf: "wf_state s" and lc: "lifecycle s" and ad: "admit_one env t s = Inr s'"
  shows "lifecycle s'"
proof -
  let ?h = "created s"
  from ad have s': "registered s' = registered s @ [?h]" "created s' = Suc ?h"
    "trace s' = trace s @ [Ev_socket ?h t, Ev_insert ?h]"
    by (auto simp: admit_one_def Let_def split: admission.splits)
  from wf have fresh: "?h \<notin> set (registered s)"
    by (auto dest: wf_state_registered_less)
  show ?thesis
    unfolding lifecycle_def s'
  proof (intro allI conjI)
    fix h
    show "Ev_insert h \<in> set (trace s @ [Ev_socket ?h t, Ev_insert ?h]) \<longleftrightarrow> h < Suc ?h"
      using lifecycleD(1) [OF lc, of h] by auto
    show "closes h (trace s @ [Ev_socket ?h t, Ev_insert ?h])
        = (if h < Suc ?h \<and> h \<notin> set (registered s @ [?h]) then 1 else 0)"
      using lifecycleD(2) [OF lc, of h] by (simp add: less_Suc_eq)
    show "resolved h (trace s @ [Ev_socket ?h t, Ev_insert ?h])
        = (if h < Suc ?h \<and> h \<notin> set (registered s @ [?h]) then 1 else 0)"
      using lifecycleD(3) [OF lc, of h] by (simp add: less_Suc_eq)
  qed
qed

lemma lifecycle_admit_failed:
  assumes lc: "lifecycle s" and ad: "admit_one env t s = Inl (e, s')"
  shows "at_most_once s'"
proof -
  from ad have "closes h (trace s') = closes h (trace s)"
    "resolved h (trace s') = resolved h (trace s)" for h
    by (auto simp: admit_one_def Let_def split: admission.splits)
  with lifecycle_at_most_once [OF lc] show ?thesis by (simp add: at_most_once_def)
qed

lemma lifecycle_remove:
  assumes wf: "wf_state s" and lc: "lifecycle s" and hreg: "h \<in> set (registered s)"
    and s': "created s' = created s" "registered s' = removeAll h (registered s)"
      "trace s' = trace s @ tr" "filter (\<lambda>e. e \<noteq> Ev_pop h) tr = [Ev_close h, Ev_done h t r]"
  shows "lifecycle s'"
proof -
  from wf hreg have lt: "h < created s" by (rule wf_state_registered_less)
  from s'(4) have "set (filter (\<lambda>e. e \<noteq> Ev_pop h) tr) = {Ev_close h, Ev_done h t r}" by simp
  then have ins: "Ev_insert h' \<notin> set tr" for h' by auto
  have cnt: "closes h' tr = closes h' (filter (\<lambda>e. e \<noteq> Ev_pop h) tr)" 
    "resolved h' tr = resolved h' (filter (\<lambda>e. e \<noteq> Ev_pop h) tr)" for h'
    by (induction tr) (auto simp: resolved_def closes_def)
  show ?thesis
    unfolding lifecycle_def s'(1,2,3)
  proof (intro allI conjI)
    fix h'
    show "Ev_insert h' \<in> set (trace s @ tr) \<longleftrightarrow> h' < created s"
      using lifecycleD(1) [OF lc, of h'] ins by simp
    show "closes h' (trace s @ tr)
        = (if h' < created s \<and> h' \<notin> set (removeAll h (registered s)) then 1 else 0)"
      using lifecycleD(2) [OF lc, of h'] hreg lt by (auto simp: cnt s'(4))
    show "resolved h' (trace s @ tr)
        = (if h' < created s \<and> h' \<notin> set (removeAll h (registered s)) then 1 else 0)"
      using lifecycleD(3) [OF lc, of h'] hreg lt by (auto simp: cnt s'(4))
  qed
qed

lemma lifecycle_preserved:
  "preserved (\<lambda>s. wf_state s \<and> lifecycle s) at_most_once env c T"
  unfolding preserved_def
proof (intro conjI allI impI)
  fix s t rest
  assume a: "(wf_state s \<and> lifecycle s) \<and> tasks s = t # rest \<and> int (length (in_flight s)) < c"
  then have wf: "wf_state (s\<lparr>tasks := rest\<rparr>)" and lc: "lifecycle (s\<lparr>tasks := rest\<rparr>)"
    by simp_all
  show "case admit_one env t (s\<lparr>tasks := rest\<rparr>) of
          Inl (e, s') \<Rightarrow> at_most_once s' | Inr s' \<Rightarrow> wf_state s' \<and> lifecycle s'"
  proof (cases "admit_one env t (s\<lparr>tasks := rest\<rparr>)")
    case (Inl es)
    obtain e s' where es: "es = (e, s')" by (cases es)
    with Inl have "admit_one env t (s\<lparr>tasks := rest\<rparr>) = Inl (e, s')" by simp
    with lc have "at_most_once s'" by (rule lifecycle_admit_failed)
    with Inl es show ?thesis by simp
  next
    case (Inr s')
    from wf Inr have "wf_state s'" by (rule wf_admit)
    moreover from wf lc Inr have "lifecycle s'" by (rule lifecycle_admit)
    ultimately show ?thesis using Inr by simp
  qed
next
  fix s h ip port start d k regs
  assume a: "(wf_state s \<and> lifecycle s) \<and> pop h (in_flight s) = Some ((ip, port, start), d)
    \<and> h \<in> set (registered s) \<and> polls s = Suc k \<and> h \<in> set regs \<and> h \<in> set (select_ready env k regs)"
  let ?s' = "resolve_ready env h ip port (s\<lparr>in_flight := d\<rparr>)"
  let ?r = "if so_error env h = 0 then Success else Failure"
  from a have "wf_state s" "lifecycle s" "h \<in> set (registered s)" by simp_all
  then show "lifecycle ?s'"
    by (rule lifecycle_remove [where tr = "[Ev_pop h, Ev_close h, Ev_done h (ip, port) ?r]"])
      (simp_all add: resolve_ready_def Let_def)
  from a show "wf_state ?s'"
    by (simp add: wf_resolve_ready)
next
  fix s h ip port start d k regs
  assume a: "(wf_state s \<and> lifecycle s) \<and> pop h (in_flight s) = Some ((ip, port, start), d)
    \<and> h \<in> set (registered s) \<and> polls s = Suc k \<and> h \<in> set regs \<and> h \<notin> set (select_ready env k regs)
    \<and> T \<le> time_time (poll_clock env k) - start"
  from a have "wf_state s" "lifecycle s" "h \<in> set (registered s)" by simp_all
  then show "lifecycle (expire h ip port d s)"
    by (rule lifecycle_remove [where tr = "[Ev_close h, Ev_pop h, Ev_done h (ip, port) Timeout]"])
      (simp_all add: expire_def)
  from a show "wf_state (expire h ip port d s)"
    by (simp add: wf_expire)
qed (simp_all add: lifecycle_at_most_once)

lemma init_state_lifecycle: "lifecycle (init_state ips ports)"
  by (simp add: lifecycle_def)

lemma lifecycle_admitted:
  assumes "wf_state s" and "lifecycle s" and "Ev_insert h \<in> set (trace s)"
  shows "if h \<in> fst ` set (in_flight s)
         then closes h (trace s) = 0 \<and> resolved h (trace s) = 0
         else closes h (trace s) = 1 \<and> resolved h (trace s) = 1"
proof -
  from assms(1) have keys: "set (registered s) = fst ` set (in_flight s)"
    by (simp add: wf_state_def)
  from assms(2) have h: "(Ev_insert h \<in> set (trace s) \<longleftrightarrow> h < created s)"
    "closes h (trace s) = (if h < created s \<and> h \<notin> set (registered s) then 1 else 0)"
    "resolved h (trace s) = (if h < created s \<and> h \<notin> set (registered s) then 1 else 0)"
    unfolding lifecycle_def by blast+
  from h(1) assms(3) have "h < created s" by simp
  with h(2,3) keys show ?thesis by simp
qed

text \<open>
  C2, in the form that holds of the code. At any moment, also when the scan raised, no socket has been closed
  twice and no attempt resolved twice. While the scan runs, an admitted attempt is either
  still in flight, neither closed nor resolved, or it has been resolved once and its
  socket closed once. When the scan returns, nothing is in flight, so every admitted
  attempt has been resolved exactly once and its socket closed exactly once.
\<close>

theorem attempt_lifecycle:
  "case scan_sctp env ips ports concurrency timeout fuel of
     Returned s \<Rightarrow>
       in_flight s = []
       \<and> (\<forall>h. Ev_insert h \<in> set (trace s) \<longrightarrow> closes h (trace s) = 1 \<and> resolved h (trace s) = 1)
   | Raised e s \<Rightarrow> (\<forall>h. closes h (trace s) \<le> 1 \<and> resolved h (trace s) \<le> 1)
   | Running s \<Rightarrow>
       (\<forall>h. Ev_insert h \<in> set (trace s) \<longrightarrow>
          (if h \<in> fst ` set (in_flight s)
           then closes h (trace s) = 0 \<and> resolved h (trace s) = 0
           else closes h (trace s) = 1 \<and> resolved h (trace s) = 1))"
proof -
  let ?out = "scan_sctp env ips ports concurrency timeout fuel"
  have "wf_state (init_state ips ports) \<and> lifecycle (init_state ips ports)"
    by (simp add: init_state_wf init_state_lifecycle)
  from scan_preserved [OF lifecycle_preserved this, where fuel = fuel and T = timeout
      and c = concurrency and env = env]
  have inv: "case ?out of
       Returned s' \<Rightarrow> (wf_state s' \<and> lifecycle s') \<and> in_flight s' = []
         \<and> (0 < concurrency \<longrightarrow> tasks s' = [])
     | Raised e s' \<Rightarrow> at_most_once s'
     | Running s' \<Rightarrow> wf_state s' \<and> lifecycle s'" .
  show ?thesis
  proof (cases ?out)
    case (Returned s)
    with inv have s: "wf_state s" "lifecycle s" "in_flight s = []" by simp_all
    have "closes h (trace s) = 1 \<and> resolved h (trace s) = 1"
      if "Ev_insert h \<in> set (trace s)" for h
      using lifecycle_admitted [OF s(1,2) that] s(3) by simp
    with Returned s(3) show ?thesis by simp
  next
    case (Raised e s)
    with inv show ?thesis by (simp add: at_most_once_def)
  next
    case (Running s)
    with inv have s: "wf_state s" "lifecycle s" by simp_all
    from Running lifecycle_admitted [OF s] show ?thesis by simp
  qed
qed

theorem attempt_lifecycle_witness:
  "Ev_insert 1 \<in> set (trace (state_of (scan_sctp demo_env [''10.0.0.1''] [2905, 2906, 2907] 2 1 3)))
   \<and> closes 1 (trace (state_of (scan_sctp demo_env [''10.0.0.1''] [2905, 2906, 2907] 2 1 3))) = 1
   \<and> resolved 1 (trace (state_of (scan_sctp demo_env [''10.0.0.1''] [2905, 2906, 2907] 2 1 3))) = 1"
proof -
  have ins: "Ev_insert 1 \<in>
      set (trace (state_of (scan_sctp demo_env [''10.0.0.1''] [2905, 2906, 2907] 2 1 3)))"
    unfolding demo_run_3 by (simp add: state_of_def)
  from attempt_lifecycle [of demo_env "[''10.0.0.1'']" "[2905, 2906, 2907]" 2 1 3]
  have "\<forall>h. Ev_insert h \<in> set (trace (state_of (scan_sctp demo_env [''10.0.0.1''] [2905, 2906, 2907] 2 1 3)))
      \<longrightarrow> closes h (trace (state_of (scan_sctp demo_env [''10.0.0.1''] [2905, 2906, 2907] 2 1 3))) = 1
        \<and> resolved h (trace (state_of (scan_sctp demo_env [''10.0.0.1''] [2905, 2906, 2907] 2 1 3))) = 1"
    unfolding demo_run_3 by (simp add: state_of_def)
  with ins show ?thesis by blast
qed

text \<open>
  C2 as stated also promises that no admitted attempt is left unresolved with an open
  socket when \<open>scan_sctp\<close> raises. There is no handler around the loop: when the
  creation of socket 1 fails while socket 0 is in flight, the exception leaves
  \<open>scan_sctp\<close> with socket 0 still in \<open>in_flight\<close>, registered, never closed and
  never resolved.
\<close>

theorem leak_on_raise_counterexample:
  "scan_sctp (fail_env 1 Create_fails) [''10.0.0.1''] [2905, 2906, 2907] 2 1 3 =
     Raised OSError_socket
       \<lparr>tasks = [(''10.0.0.1'', 2907)], in_flight = [(0, ''10.0.0.1'', 2905, 0)],
        registered = [0], results = [], created = 1, polls = 0,
        trace = [Ev_socket 0 (''10.0.0.1'', 2905), Ev_insert 0]\<rparr>
   \<and> closes 0
        (trace (state_of
           (scan_sctp (fail_env 1 Create_fails) [''10.0.0.1''] [2905, 2906, 2907] 2 1 3))) = 0
   \<and> resolved 0
        (trace (state_of
           (scan_sctp (fail_env 1 Create_fails) [''10.0.0.1''] [2905, 2906, 2907] 2 1 3))) = 0"
  by (simp add: scan_sctp_def init_state_def gen_tasks_def demo_env_def fail_env_def
      next_task_def refill.simps admit_one_def state_of_def time_time_def numeral_3_eq_3)

section \<open>Failing admissions\<close>

lemma admitted_ok_update [simp]:
  "admitted_ok env n (s\<lparr>polls := k\<rparr>) = admitted_ok env n s"
  by (simp_all add: admitted_ok_def)

lemma admitted_ok_preserved:
  "preserved (\<lambda>s. wf_state s \<and> admitted_ok env n s) (\<lambda>s. True) env c T"
  unfolding preserved_def
proof (intro conjI allI impI)
  fix s t rest
  assume a: "(wf_state s \<and> admitted_ok env n s) \<and> tasks s = t # rest \<and> int (length (in_flight s)) < c"
  then have wf: "wf_state (s\<lparr>tasks := rest\<rparr>)" by simp
  show "case admit_one env t (s\<lparr>tasks := rest\<rparr>) of
          Inl (e, s') \<Rightarrow> True | Inr s' \<Rightarrow> wf_state s' \<and> admitted_ok env n s'"
  proof (cases "admit_one env t (s\<lparr>tasks := rest\<rparr>)")
    case (Inl es)
    then show ?thesis by (simp split: prod.splits)
  next
    case (Inr s')
    from wf Inr have "wf_state s'" by (rule wf_admit)
    moreover from Inr a have "admitted_ok env n s'"
      by (auto simp: admit_one_def Let_def admitted_ok_def less_Suc_eq split: admission.splits)
    ultimately show ?thesis using Inr by simp
  qed
next
  fix s h ip port start d k regs
  assume a: "(wf_state s \<and> admitted_ok env n s) \<and> pop h (in_flight s) = Some ((ip, port, start), d)
    \<and> h \<in> set (registered s) \<and> polls s = Suc k \<and> h \<in> set regs \<and> h \<in> set (select_ready env k regs)"
  then show "admitted_ok env n (resolve_ready env h ip port (s\<lparr>in_flight := d\<rparr>))"
    by (simp add: resolve_ready_def Let_def admitted_ok_def)
  from a show "wf_state (resolve_ready env h ip port (s\<lparr>in_flight := d\<rparr>))"
    by (simp add: wf_resolve_ready)
next
  fix s h ip port start d k regs
  assume a: "(wf_state s \<and> admitted_ok env n s) \<and> pop h (in_flight s) = Some ((ip, port, start), d)
    \<and> h \<in> set (registered s) \<and> polls s = Suc k \<and> h \<in> set regs \<and> h \<notin> set (select_ready env k regs)
    \<and> T \<le> time_time (poll_clock env k) - start"
  then show "admitted_ok env n (expire h ip port d s)"
    by (simp add: expire_def admitted_ok_def)
  from a show "wf_state (expire h ip port d s)"
    by (simp add: wf_expire)
qed simp_all

lemma returned_all_admitted:
  assumes "0 < c" and "scan_sctp env ips ports c T fuel = Returned s"
  shows "\<forall>k < total ips ports. admit env k = Admit_ok"
proof -
  have "wf_state (init_state ips ports) \<and> admitted_ok env (total ips ports) (init_state ips ports)"
    by (simp add: init_state_wf admitted_ok_def length_gen_tasks)
  from scan_preserved [OF admitted_ok_preserved this, where fuel = fuel and T = T and c = c] assms
  show ?thesis by (auto simp: admitted_ok_def)
qed

lemma failing_admission_raises:
  assumes "admit env (created s) \<noteq> Admit_ok" and "tasks s = t # rest"
    and "int (length (in_flight s)) < c"
  shows "\<exists>e s'. event_loop env c T (Suc fuel) s = Raised e s' \<and> tasks s' = rest
     \<and> in_flight s' = in_flight s \<and> results s' = results s \<and> dones (trace s') = dones (trace s)"
proof -
  from assms(1) obtain e s' where ad: "admit_one env t (s\<lparr>tasks := rest\<rparr>) = Inl (e, s')"
    and s': "tasks s' = rest" "in_flight s' = in_flight s" "results s' = results s"
      "dones (trace s') = dones (trace s)"
    by (cases "admit env (created s)") (auto simp: admit_one_def Let_def)
  from assms(2,3) ad have "refill env c s = Inl (e, s')"
    by (subst refill.simps) (simp add: next_task_def)
  with s' show ?thesis by simp
qed


text \<open>
  C3, in the form that holds of the code. Only \<open>StopIteration\<close> is caught around the admission loop, so a
  failure to create or register a socket is not handled per target. With
  \<open>concurrency > 0\<close> the scan returns only if every admission succeeded; and an
  iteration that reaches a failing admission raises at once: the target has been taken
  from \<open>tasks\<close>, nothing is recorded for it (no result, no resolution), the attempts in
  flight stay as they are, and the remaining targets are never attempted.
\<close>

theorem admission_failure_aborts:
  "(0 < concurrency \<and> scan_sctp env ips ports concurrency timeout fuel = Returned s \<longrightarrow>
      (\<forall>k < total ips ports. admit env k = Admit_ok))
   \<and> (admit env (created s0) \<noteq> Admit_ok \<and> tasks s0 = t # rest
        \<and> int (length (in_flight s0)) < concurrency \<longrightarrow>
      (\<exists>e s'. event_loop env concurrency timeout (Suc fuel) s0 = Raised e s'
         \<and> tasks s' = rest \<and> in_flight s' = in_flight s0 \<and> results s' = results s0
         \<and> dones (trace s') = dones (trace s0)))"
  using returned_all_admitted [of concurrency env ips ports timeout fuel s]
    failing_admission_raises [of env s0 t rest concurrency timeout fuel]
  by blast

theorem admission_failure_aborts_witness:
  "(0 :: int) < 2
   \<and> scan_sctp demo_env [''10.0.0.1''] [2905, 2906, 2907] 2 1 3 =
       Returned
         \<lparr>tasks = [], in_flight = [], registered = [], results = [(''10.0.0.1'', 2905)],
          created = 3, polls = 2,
          trace = [Ev_socket 0 (''10.0.0.1'', 2905), Ev_insert 0,
                   Ev_socket 1 (''10.0.0.1'', 2906), Ev_insert 1,
                   Ev_pop 0, Ev_close 0, Ev_done 0 (''10.0.0.1'', 2905) Success,
                   Ev_socket 2 (''10.0.0.1'', 2907), Ev_insert 2,
                   Ev_pop 2, Ev_close 2, Ev_done 2 (''10.0.0.1'', 2907) Failure,
                   Ev_close 1, Ev_pop 1, Ev_done 1 (''10.0.0.1'', 2906) Timeout]\<rparr>
   \<and> (2 :: nat) < total [''10.0.0.1''] [2905, 2906, 2907]
   \<and> admit demo_env 2 = Admit_ok
   \<and> admit (fail_env 2 Register_fails) (created demo_state) \<noteq> Admit_ok
   \<and> tasks demo_state = (''10.0.0.1'', 2907) # []
   \<and> int (length (in_flight demo_state)) < 3
   \<and> (\<exists>e s'. event_loop (fail_env 2 Register_fails) 3 1 (Suc 0) demo_state = Raised e s'
         \<and> tasks s' = [] \<and> in_flight s' = in_flight demo_state
         \<and> results s' = results demo_state
         \<and> dones (trace s') = dones (trace demo_state))"
proof -
  have pos: "(0 :: int) < 2" by simp
  have lt: "(2 :: nat) < total [''10.0.0.1''] [2905, 2906, 2907]" by (simp add: total_def)
  have h: "admit (fail_env 2 Register_fails) (created demo_state) \<noteq> Admit_ok"
    "tasks demo_state = (''10.0.0.1'', 2907) # []"
    "int (length (in_flight demo_state)) < 3"
    by (simp_all add: fail_env_def demo_state_def)
  from admission_failure_aborts [where concurrency = 2 and env = demo_env
      and ips = "[''10.0.0.1'']" and ports = "[2905, 2906, 2907]" and timeout = 1 and fuel = 3]
    pos demo_run_3 lt
  have "admit demo_env 2 = Admit_ok" by blast
  moreover
  from admission_failure_aborts [where concurrency = 3 and env = "fail_env 2 Register_fails"
      and timeout = 1 and fuel = 0 and ?s0.0 = demo_state and t = "(''10.0.0.1'', 2907)"
      and rest = "[]"] h
  have "\<exists>e s'. event_loop (fail_env 2 Register_fails) 3 1 (Suc 0) demo_state = Raised e s'
         \<and> tasks s' = [] \<and> in_flight s' = in_flight demo_state
         \<and> results s' = results demo_state
         \<and> dones (trace s') = dones (trace demo_state)" by blast
  ultimately show ?thesis using pos lt h demo_run_3 by blast
qed

text \<open>
  C3 as stated says that a failed admission drops one target and the scan goes on. When
  the first socket cannot be created, the scan ends with the exception: the second
  target is still in \<open>tasks\<close>, never attempted, and nothing was recorded for the first.
\<close>

theorem admission_failure_counterexample:
  "scan_sctp (fail_env 0 Create_fails) [''10.0.0.1''] [2905, 2906] 1 1 3 =
     Raised OSError_socket
       \<lparr>tasks = [(''10.0.0.1'', 2906)], in_flight = [], registered = [], results = [],
        created = 0, polls = 0, trace = []\<rparr>"
  by (simp add: scan_sctp_def init_state_def gen_tasks_def demo_env_def fail_env_def
      next_task_def refill.simps admit_one_def numeral_3_eq_3)

section \<open>One poll\<close>

lemma resolutions_simps [simp]:
  "resolutions h [] = []"
  "resolutions h (xs @ ys) = resolutions h xs @ resolutions h ys"
  "resolutions h (Ev_done h' t r # tr) = (if h' = h then [r] else []) @ resolutions h tr"
  "resolutions h (Ev_socket h' t # tr) = resolutions h tr"
  "resolutions h (Ev_insert h' # tr) = resolutions h tr"
  "resolutions h (Ev_pop h' # tr) = resolutions h tr"
  "resolutions h (Ev_close h' # tr) = resolutions h tr"
  by (simp_all add: resolutions_def)

lemma expiry_events_simp [simp]:
  "expiry_events now T (h, ip, port, start) =
     (if T \<le> now - start then [Ev_close h, Ev_pop h, Ev_done h (ip, port) Timeout] else [])"
  by (simp add: expiry_events_def)

lemma resolutions_ready:
  "distinct hs \<Longrightarrow>
   resolutions h (concat (map (ready_events env d) hs)) =
     (if h \<in> set hs
      then (case map_of d h of None \<Rightarrow> []
            | Some v \<Rightarrow> [if so_error env h = 0 then Success else Failure])
      else [])"
  by (induction hs) (auto simp: ready_events_def split: option.splits)

lemma resolutions_expiry:
  "h \<notin> fst ` set snap \<Longrightarrow> resolutions h (concat (map (expiry_events now T) snap)) = []"
  by (induction snap) auto

lemma sweep_effect:
  "wf_state s \<Longrightarrow> set snap \<subseteq> set (in_flight s) \<Longrightarrow> distinct (map fst snap) \<Longrightarrow>
   \<exists>s'. sweep now T snap s = Inr s' \<and> wf_state s'
     \<and> in_flight s' = filter (\<lambda>e. \<not> (e \<in> set snap \<and> T \<le> now - snd (snd (snd e)))) (in_flight s)
     \<and> tasks s' = tasks s \<and> polls s' = polls s \<and> created s' = created s
     \<and> results s' = results s
     \<and> trace s' = trace s @ concat (map (expiry_events now T) snap)"
proof (induction snap arbitrary: s)
  case Nil
  then show ?case by simp
next
  case (Cons x rest)
  obtain h ip port start where x: "x = (h, ip, port, start)"
    by (metis prod.exhaust)
  from Cons.prems have rest: "set rest \<subseteq> set (in_flight s)" "distinct (map fst rest)" by auto
  show ?case
  proof (cases "T \<le> now - start")
    case False
    from Cons.IH [OF Cons.prems(1) rest] obtain s' where
      s': "sweep now T rest s = Inr s'" "wf_state s'"
        "in_flight s' = filter (\<lambda>e. \<not> (e \<in> set rest \<and> T \<le> now - snd (snd (snd e)))) (in_flight s)"
        "tasks s' = tasks s" "polls s' = polls s" "created s' = created s" "results s' = results s"
        "trace s' = trace s @ concat (map (expiry_events now T) rest)"
      by blast
    have "filter (\<lambda>e. \<not> (e \<in> set rest \<and> T \<le> now - snd (snd (snd e)))) (in_flight s)
        = filter (\<lambda>e. \<not> (e \<in> set (x # rest) \<and> T \<le> now - snd (snd (snd e)))) (in_flight s)"
      using False x by (intro filter_cong) auto
    with s' False x show ?thesis by simp
  next
    case True
    from Cons.prems x have mem: "(h, ip, port, start) \<in> set (in_flight s)" by simp
    from Cons.prems(1) have dk: "distinct (map fst (in_flight s))" by (rule wf_state_keys)
    let ?d = "AList.delete h (in_flight s)"
    from dk mem have popd: "pop h (in_flight s) = Some ((ip, port, start), ?d)"
      by (rule pop_entry)
    from mem have "h \<in> fst ` set (in_flight s)" by force
    with Cons.prems(1) have hreg: "h \<in> set (registered s)" by (simp add: wf_state_def)
    let ?s1 = "expire h ip port ?d s"
    from Cons.prems(1) popd have wf1: "wf_state ?s1" by (rule wf_expire)
    have eqs: "in_flight ?s1 = ?d" "tasks ?s1 = tasks s" "polls ?s1 = polls s"
      "created ?s1 = created s" "results ?s1 = results s"
      "trace ?s1 = trace s @ [Ev_close h, Ev_pop h, Ev_done h (ip, port) Timeout]"
      by (simp_all add: expire_def)
    have rest_in: "set rest \<subseteq> set (in_flight ?s1)"
    proof
      fix y assume y: "y \<in> set rest"
      with Cons.prems(3) x have "fst y \<noteq> h" by force
      moreover from y rest(1) have "y \<in> set (in_flight s)" by auto
      ultimately show "y \<in> set (in_flight ?s1)"
        unfolding eqs by (cases y) (simp add: set_delete_keep)
    qed
    from Cons.IH [OF wf1 rest_in rest(2)] obtain s' where
      s': "sweep now T rest ?s1 = Inr s'" "wf_state s'"
        "in_flight s' = filter (\<lambda>e. \<not> (e \<in> set rest \<and> T \<le> now - snd (snd (snd e)))) (in_flight ?s1)"
        "tasks s' = tasks ?s1" "polls s' = polls ?s1" "created s' = created ?s1"
        "results s' = results ?s1"
        "trace s' = trace ?s1 @ concat (map (expiry_events now T) rest)"
      by blast
    have run: "sweep now T (x # rest) s = Inr s'"
      using x True hreg popd s'(1) by simp
    have same: "fst e = h \<Longrightarrow> e = (h, ip, port, start)" if "e \<in> set (in_flight s)" for e
      using eq_key_imp_eq_value [OF dk, of h "snd e" "(ip, port, start)"] that mem
      by (cases e) auto
    have flt: "filter (\<lambda>e. \<not> (e \<in> set rest \<and> T \<le> now - snd (snd (snd e)))) ?d
        = filter (\<lambda>e. \<not> (e \<in> set (x # rest) \<and> T \<le> now - snd (snd (snd e)))) (in_flight s)"
      unfolding AList.delete_eq filter_filter
      using True x same by (intro filter_cong) auto
    from run s' wf1 flt show ?thesis
      unfolding eqs using x True by simp
  qed
qed

lemma handle_ready_runs:
  "wf_state s \<Longrightarrow> distinct hs \<Longrightarrow> set hs \<subseteq> set (registered s) \<Longrightarrow>
   \<exists>s'. handle_ready env hs s = Inr s'"
proof (induction hs arbitrary: s)
  case Nil
  then show ?case by simp
next
  case (Cons h hs)
  from Cons.prems have hreg: "h \<in> set (registered s)" by simp
  with Cons.prems(1) have "h \<in> fst ` set (in_flight s)" by (simp add: wf_state_def)
  then obtain v where "(h, v) \<in> set (in_flight s)" by force
  with wf_state_keys [OF Cons.prems(1)]
  have "pop h (in_flight s) = Some (v, AList.delete h (in_flight s))" by (rule pop_entry)
  moreover obtain ip port start where v: "v = (ip, port, start)" by (metis prod.exhaust)
  ultimately have popd: "pop h (in_flight s) = Some ((ip, port, start), AList.delete h (in_flight s))"
    by simp
  let ?s1 = "resolve_ready env h ip port (s\<lparr>in_flight := AList.delete h (in_flight s)\<rparr>)"
  from Cons.prems(1) popd have wf1: "wf_state ?s1" by (rule wf_resolve_ready)
  have "registered ?s1 = removeAll h (registered s)" by (simp add: resolve_ready_def Let_def)
  with Cons.prems have "distinct hs" "set hs \<subseteq> set (registered ?s1)" by auto
  from Cons.IH [OF wf1 this] popd hreg show ?case by simp
qed


lemma handle_ready_frame:
  "handle_ready env hs s = Inr s' \<Longrightarrow>
   tasks s' = tasks s \<and> polls s' = polls s \<and> created s' = created s"
proof (induction hs arbitrary: s)
  case Nil
  then show ?case by simp
next
  case (Cons h hs)
  from Cons.prems obtain ip port start d where
    popd: "pop h (in_flight s) = Some ((ip, port, start), d)"
    by (auto split: option.splits)
  from Cons.prems popd have hreg: "h \<in> set (registered s)"
    by (auto split: if_splits)
  let ?s1 = "resolve_ready env h ip port (s\<lparr>in_flight := d\<rparr>)"
  from Cons.prems popd hreg have "handle_ready env hs ?s1 = Inr s'" by simp
  from Cons.IH [OF this] show ?case by (simp add: resolve_ready_def Let_def)
qed

lemma poll_once_split:
  assumes "poll_once env T s = Inr s'"
  shows "\<exists>mid. handle_ready env (select_ready env (polls s) (registered s))
            (s\<lparr>polls := Suc (polls s)\<rparr>) = Inr mid
          \<and> sweep (time_time (poll_clock env (polls s))) T (in_flight mid) mid = Inr s'"
  using assms by (auto simp: poll_once_def Let_def split: sum.splits)

lemma poll_once_effect:
  assumes wf: "wf_state s" and run: "poll_once env T s = Inr s'"
  defines "hs \<equiv> select_ready env (polls s) (registered s)"
    and "now \<equiv> time_time (poll_clock env (polls s))"
  shows "distinct hs" and "set hs \<subseteq> set (registered s)" and "wf_state s'"
    and "in_flight s' =
           filter (\<lambda>e. fst e \<notin> set hs \<and> \<not> T \<le> now - snd (snd (snd e))) (in_flight s)"
    and "tasks s' = tasks s" and "polls s' = Suc (polls s)" and "created s' = created s"
    and "results s' = results s @ concat (map (ready_results env (in_flight s)) hs)"
    and "trace s' = trace s @ concat (map (ready_events env (in_flight s)) hs)
           @ concat (map (expiry_events now T) (filter (\<lambda>e. fst e \<notin> set hs) (in_flight s)))"
proof -
  let ?s0 = "s\<lparr>polls := Suc (polls s)\<rparr>"
  from poll_once_split [OF run] obtain mid where
    hr: "handle_ready env hs ?s0 = Inr mid"
    and sw: "sweep now T (in_flight mid) mid = Inr s'"
    unfolding hs_def now_def by blast
  from wf have wf0: "wf_state ?s0" by simp
  from handle_ready_effect [OF wf0 hr]
  have eff: "distinct hs" "set hs \<subseteq> set (registered s)" "wf_state mid"
    "in_flight mid = filter (\<lambda>e. fst e \<notin> set hs) (in_flight s)"
    "results mid = results s @ concat (map (ready_results env (in_flight s)) hs)"
    "trace mid = trace s @ concat (map (ready_events env (in_flight s)) hs)"
    by simp_all
  from handle_ready_frame [OF hr]
  have fr: "tasks mid = tasks s" "polls mid = Suc (polls s)" "created mid = created s"
    by simp_all
  from eff(3) have "distinct (map fst (in_flight mid))" by (rule wf_state_keys)
  from sweep_effect [OF eff(3) subset_refl this, of now T] sw
  have sweff: "wf_state s'"
    "in_flight s' = filter (\<lambda>e. \<not> (e \<in> set (in_flight mid) \<and> T \<le> now - snd (snd (snd e))))
        (in_flight mid)"
    "tasks s' = tasks mid" "polls s' = polls mid" "created s' = created mid"
    "results s' = results mid"
    "trace s' = trace mid @ concat (map (expiry_events now T) (in_flight mid))"
    by simp_all
  show "distinct hs" "set hs \<subseteq> set (registered s)" "wf_state s'"
    by (fact eff(1) eff(2) sweff(1))+
  show "tasks s' = tasks s" "polls s' = Suc (polls s)" "created s' = created s"
    using sweff fr by simp_all
  show "results s' = results s @ concat (map (ready_results env (in_flight s)) hs)"
    using sweff(6) eff(5) by simp
  show "trace s' = trace s @ concat (map (ready_events env (in_flight s)) hs)
           @ concat (map (expiry_events now T) (filter (\<lambda>e. fst e \<notin> set hs) (in_flight s)))"
    using sweff(7) eff(4,6) by simp
  have "filter (\<lambda>e. \<not> (e \<in> set (in_flight mid) \<and> T \<le> now - snd (snd (snd e)))) (in_flight mid)
      = filter (\<lambda>e. \<not> T \<le> now - snd (snd (snd e))) (in_flight mid)"
    by (intro filter_cong) auto
  with sweff(2) eff(4)
  show "in_flight s' =
           filter (\<lambda>e. fst e \<notin> set hs \<and> \<not> T \<le> now - snd (snd (snd e))) (in_flight s)"
    by (simp add: conj_commute)
qed

lemma poll_once_runs:
  assumes wf: "wf_state s"
    and sel: "distinct (select_ready env (polls s) (registered s))"
      "set (select_ready env (polls s) (registered s)) \<subseteq> set (registered s)"
  shows "\<exists>s'. poll_once env T s = Inr s'"
proof -
  let ?s0 = "s\<lparr>polls := Suc (polls s)\<rparr>"
  from wf have wf0: "wf_state ?s0" by simp
  from handle_ready_runs [OF wf0, of "select_ready env (polls s) (registered s)" env] sel
  obtain mid where hr: "handle_ready env (select_ready env (polls s) (registered s)) ?s0 = Inr mid"
    by auto
  from handle_ready_effect [OF wf0 hr] have wfm: "wf_state mid" by simp
  then have "distinct (map fst (in_flight mid))" by (rule wf_state_keys)
  from sweep_effect [OF wfm subset_refl this, of "time_time (poll_clock env (polls s))" T]
  obtain s' where "sweep (time_time (poll_clock env (polls s))) T (in_flight mid) mid = Inr s'"
    by blast
  with hr show ?thesis by (simp add: poll_once_def Let_def)
qed

text \<open>
  C9. One poll first resolves every socket \<open>select\<close> reported and only then sweeps
  what is left of \<open>in_flight\<close>. So a socket that is reported writable in a poll in which
  its deadline has also passed is no longer in \<open>in_flight\<close> when the sweep runs, and the
  calls of this poll resolve it exactly once, by its \<open>SO_ERROR\<close> (success or failure),
  not as a timeout.
\<close>

theorem ready_before_sweep:
  assumes "wf_state s" and "poll_once env timeout s = Inr s'"
    and "h \<in> set (select_ready env (polls s) (registered s))"
    and "map_of (in_flight s) h = Some (ip, port, start)"
    and "timeout \<le> time_time (poll_clock env (polls s)) - start"
  shows "(\<exists>mid. handle_ready env (select_ready env (polls s) (registered s))
              (s\<lparr>polls := Suc (polls s)\<rparr>) = Inr mid
            \<and> h \<notin> fst ` set (in_flight mid)
            \<and> sweep (time_time (poll_clock env (polls s))) timeout (in_flight mid) mid = Inr s')
     \<and> resolutions h (drop (length (trace s)) (trace s'))
         = [if so_error env h = 0 then Success else Failure]"
proof
  let ?hs = "select_ready env (polls s) (registered s)"
  let ?now = "time_time (poll_clock env (polls s))"
  from poll_once_split [OF assms(2)] obtain mid where
    hr: "handle_ready env ?hs (s\<lparr>polls := Suc (polls s)\<rparr>) = Inr mid"
    and sw: "sweep ?now timeout (in_flight mid) mid = Inr s'"
    by blast
  from assms(1) have wf0: "wf_state (s\<lparr>polls := Suc (polls s)\<rparr>)" by simp
  from handle_ready_effect [OF wf0 hr]
  have "in_flight mid = filter (\<lambda>e. fst e \<notin> set ?hs) (in_flight s)" by simp
  with assms(3) have "h \<notin> fst ` set (in_flight mid)" by auto
  with hr sw
  show "\<exists>mid. handle_ready env ?hs (s\<lparr>polls := Suc (polls s)\<rparr>) = Inr mid
            \<and> h \<notin> fst ` set (in_flight mid)
            \<and> sweep ?now timeout (in_flight mid) mid = Inr s'"
    by blast
  have tr: "trace s' = trace s @ concat (map (ready_events env (in_flight s)) ?hs)
           @ concat (map (expiry_events ?now timeout)
               (filter (\<lambda>e. fst e \<notin> set ?hs) (in_flight s)))"
    by (rule poll_once_effect [OF assms(1,2)])
  have d: "distinct ?hs" by (rule poll_once_effect [OF assms(1,2)])
  from assms(3) have "h \<notin> fst ` set (filter (\<lambda>e. fst e \<notin> set ?hs) (in_flight s))" by auto
  then have "resolutions h (concat (map (expiry_events ?now timeout)
               (filter (\<lambda>e. fst e \<notin> set ?hs) (in_flight s)))) = []"
    by (rule resolutions_expiry)
  with resolutions_ready [OF d, of h env "in_flight s"] assms(3,4)
  show "resolutions h (drop (length (trace s)) (trace s'))
         = [if so_error env h = 0 then Success else Failure]"
    unfolding tr by simp
qed


lemma demo_poll:
  "poll_once demo_env 1 (demo_state\<lparr>polls := 3\<rparr>) =
     Inr \<lparr>tasks = [(''10.0.0.1'', 2907)], in_flight = [], registered = [],
          results = [(''10.0.0.1'', 2905)], created = 2, polls = 4,
          trace = [Ev_socket 0 (''10.0.0.1'', 2905), Ev_insert 0,
                   Ev_socket 1 (''10.0.0.1'', 2906), Ev_insert 1,
                   Ev_pop 0, Ev_close 0, Ev_done 0 (''10.0.0.1'', 2905) Success,
                   Ev_close 1, Ev_pop 1, Ev_done 1 (''10.0.0.1'', 2906) Timeout]\<rparr>"
  by (simp add: poll_once_def demo_state_def demo_env_def pop_def resolve_ready_def expire_def
      time_time_def)

theorem ready_before_sweep_witness:
  "wf_state (demo_state\<lparr>polls := 3\<rparr>)
   \<and> 0 \<in> set (select_ready demo_env (polls (demo_state\<lparr>polls := 3\<rparr>))
                (registered (demo_state\<lparr>polls := 3\<rparr>)))
   \<and> map_of (in_flight (demo_state\<lparr>polls := 3\<rparr>)) 0 = Some (''10.0.0.1'', 2905, 0)
   \<and> (1 :: rat) \<le> time_time (poll_clock demo_env (polls (demo_state\<lparr>polls := 3\<rparr>))) - 0
   \<and> resolutions 0
        (drop (length (trace (demo_state\<lparr>polls := 3\<rparr>)))
           [Ev_socket 0 (''10.0.0.1'', 2905), Ev_insert 0,
            Ev_socket 1 (''10.0.0.1'', 2906), Ev_insert 1,
            Ev_pop 0, Ev_close 0, Ev_done 0 (''10.0.0.1'', 2905) Success,
            Ev_close 1, Ev_pop 1, Ev_done 1 (''10.0.0.1'', 2906) Timeout])
       = [if so_error demo_env 0 = 0 then Success else Failure]"
proof -
  let ?s = "demo_state\<lparr>polls := 3\<rparr>"
  have wf: "wf_state ?s" using demo_state_wf by simp
  have rdy: "0 \<in> set (select_ready demo_env (polls ?s) (registered ?s))"
    by (simp add: demo_env_def demo_state_def)
  have ent: "map_of (in_flight ?s) 0 = Some (''10.0.0.1'', 2905, 0)"
    by (simp add: demo_state_def)
  have late: "(1 :: rat) \<le> time_time (poll_clock demo_env (polls ?s)) - 0"
    by (simp add: demo_env_def time_time_def)
  from ready_before_sweep [OF wf demo_poll rdy ent late] wf rdy ent late
  show ?thesis by simp
qed

section \<open>The clock\<close>

lemma admit_one_same_wall: "same_wall a b \<Longrightarrow> admit_one a t s = admit_one b t s"
  by (simp add: same_wall_def admit_one_def time_time_def Let_def split: admission.splits)

lemma refill_same_wall: "same_wall a b \<Longrightarrow> refill a c s = refill b c s"
proof (induction a c s rule: refill.induct)
  case (1 env c s)
  note sw = \<open>same_wall env b\<close>
  show ?case
  proof (cases "int (length (in_flight s)) < c")
    case False
    then show ?thesis by (simp add: refill.simps [of _ c s])
  next
    case lt: True
    show ?thesis
    proof (cases "next_task (tasks s)")
      case None
      with lt show ?thesis by (simp add: refill.simps [of _ c s])
    next
      case (Some a)
      obtain t rest where a: "a = (t, rest)" by (cases a)
      from Some a have nt: "next_task (tasks s) = Some (t, rest)" by simp
      have ab: "admit_one b t (s\<lparr>tasks := rest\<rparr>) = admit_one env t (s\<lparr>tasks := rest\<rparr>)"
        using admit_one_same_wall [OF sw] by simp
      show ?thesis
      proof (cases "admit_one env t (s\<lparr>tasks := rest\<rparr>)")
        case (Inl e)
        from lt nt Inl have "refill env c s = Inl e"
          by (simp add: refill.simps [of env c s])
        moreover from lt nt Inl ab have "refill b c s = Inl e"
          by (simp add: refill.simps [of b c s])
        ultimately show ?thesis by simp
      next
        case (Inr s')
        from lt nt Inr have "refill env c s = refill env c s'"
          by (simp add: refill.simps [of env c s])
        moreover from lt nt Inr ab have "refill b c s = refill b c s'"
          by (simp add: refill.simps [of b c s])
        moreover from "1.IH" [OF lt nt refl Inr sw] have "refill env c s' = refill b c s'" .
        ultimately show ?thesis by simp
      qed
    qed
  qed
qed

lemma handle_ready_same_wall: "same_wall a b \<Longrightarrow> handle_ready a hs s = handle_ready b hs s"
  by (induction hs arbitrary: s)
    (auto simp: same_wall_def resolve_ready_def Let_def split: option.splits)

lemma poll_once_same_wall: "same_wall a b \<Longrightarrow> poll_once a T s = poll_once b T s"
  using handle_ready_same_wall [of a b]
  by (simp add: poll_once_def Let_def time_time_def same_wall_def)

lemma event_loop_same_wall: "same_wall a b \<Longrightarrow> event_loop a c T fuel s = event_loop b c T fuel s"
  by (induction fuel arbitrary: s)
    (auto simp: refill_same_wall poll_once_same_wall split: sum.splits prod.splits)

lemma stamped_update [simp]:
  "stamped env (s\<lparr>polls := k\<rparr>) = stamped env s"
  "stamped env (s\<lparr>tasks := ts\<rparr>) = stamped env s"
  by (simp_all add: stamped_def)

lemma set_delete_subset: "set (AList.delete h d) \<subseteq> set d"
  by (auto simp: AList.delete_eq)

lemma stamped_preserved:
  "preserved (\<lambda>s. wf_state s \<and> stamped env s) (stamped env) env c T"
  unfolding preserved_def
proof (intro conjI allI impI)
  fix s t rest
  assume a: "(wf_state s \<and> stamped env s) \<and> tasks s = t # rest \<and> int (length (in_flight s)) < c"
  then have wf: "wf_state (s\<lparr>tasks := rest\<rparr>)" by simp
  from a have fresh: "created s \<notin> fst ` set (in_flight s)" by (simp add: wf_state_fresh)
  show "case admit_one env t (s\<lparr>tasks := rest\<rparr>) of
          Inl (e, s') \<Rightarrow> stamped env s' | Inr s' \<Rightarrow> wf_state s' \<and> stamped env s'"
  proof (cases "admit_one env t (s\<lparr>tasks := rest\<rparr>)")
    case (Inl es)
    with a show ?thesis
      by (auto simp: admit_one_def Let_def stamped_def split: admission.splits)
  next
    case (Inr s')
    from wf Inr have "wf_state s'" by (rule wf_admit)
    moreover from Inr a fresh have "stamped env s'"
      by (auto simp: admit_one_def Let_def stamped_def update_fresh time_time_def
          split: admission.splits)
    ultimately show ?thesis using Inr by simp
  qed
next
  fix s h ip port start d k regs
  assume a: "(wf_state s \<and> stamped env s) \<and> pop h (in_flight s) = Some ((ip, port, start), d)
    \<and> h \<in> set (registered s) \<and> polls s = Suc k \<and> h \<in> set regs \<and> h \<in> set (select_ready env k regs)"
  then have "set d \<subseteq> set (in_flight s)" by (auto dest!: pop_SomeD simp: AList.delete_eq)
  with a show "stamped env (resolve_ready env h ip port (s\<lparr>in_flight := d\<rparr>))"
    by (auto simp: resolve_ready_def Let_def stamped_def)
  from a show "wf_state (resolve_ready env h ip port (s\<lparr>in_flight := d\<rparr>))"
    by (simp add: wf_resolve_ready)
next
  fix s h ip port start d k regs
  assume a: "(wf_state s \<and> stamped env s) \<and> pop h (in_flight s) = Some ((ip, port, start), d)
    \<and> h \<in> set (registered s) \<and> polls s = Suc k \<and> h \<in> set regs \<and> h \<notin> set (select_ready env k regs)
    \<and> T \<le> time_time (poll_clock env k) - start"
  then have "set d \<subseteq> set (in_flight s)" by (auto dest!: pop_SomeD simp: AList.delete_eq)
  with a show "stamped env (expire h ip port d s)"
    by (auto simp: expire_def stamped_def)
  from a show "wf_state (expire h ip port d s)"
    by (simp add: wf_expire)
qed simp_all

text \<open>
  C4, in the form that holds of the code. The stamp of line 111 and \<open>now\<close> of line 119 are both \<open>time.time()\<close>,
  the system clock. The outcome of a scan depends on the environment's clocks only
  through the system clock's readings; every stamp in \<open>in_flight\<close> is the system clock's
  reading at the admission; and after a poll an attempt is still in flight exactly when
  it was not reported writable and the system clock's \<open>now - start\<close> is below \<open>timeout\<close>.
\<close>

theorem wall_clock_decides:
  "(same_wall env env' \<longrightarrow>
      scan_sctp env ips ports concurrency timeout fuel
        = scan_sctp env' ips ports concurrency timeout fuel)
   \<and> (\<forall>(h, ip, port, start) \<in>
          set (in_flight (state_of (scan_sctp env ips ports concurrency timeout fuel))).
        start = wall (admit_clock env h))
   \<and> (wf_state s \<and> poll_once env timeout s = Inr s' \<longrightarrow>
        in_flight s' =
          filter (\<lambda>(h, ip, port, start).
                    h \<notin> set (select_ready env (polls s) (registered s))
                    \<and> wall (poll_clock env (polls s)) - start < timeout)
            (in_flight s))"
proof (intro conjI impI)
  assume "same_wall env env'"
  then show "scan_sctp env ips ports concurrency timeout fuel
        = scan_sctp env' ips ports concurrency timeout fuel"
    by (simp add: scan_sctp_def event_loop_same_wall)
next
  have "wf_state (init_state ips ports) \<and> stamped env (init_state ips ports)"
    by (simp add: init_state_wf stamped_def)
  from scan_preserved [OF stamped_preserved this, where fuel = fuel and T = timeout
      and c = concurrency]
  have "stamped env (state_of (scan_sctp env ips ports concurrency timeout fuel))"
    by (auto simp: state_of_def split: outcome.splits)
  then show "\<forall>(h, ip, port, start) \<in>
          set (in_flight (state_of (scan_sctp env ips ports concurrency timeout fuel))).
        start = wall (admit_clock env h)"
    by (simp add: stamped_def)
next
  assume a: "wf_state s \<and> poll_once env timeout s = Inr s'"
  then have "in_flight s' =
      filter (\<lambda>e. fst e \<notin> set (select_ready env (polls s) (registered s))
                \<and> \<not> timeout \<le> time_time (poll_clock env (polls s)) - snd (snd (snd e)))
        (in_flight s)"
    using poll_once_effect(4) [of s env timeout s'] by blast
  also have "\<dots> = filter (\<lambda>(h, ip, port, start).
                    h \<notin> set (select_ready env (polls s) (registered s))
                    \<and> wall (poll_clock env (polls s)) - start < timeout)
            (in_flight s)"
    by (intro filter_cong) (auto simp: time_time_def not_le)
  finally show "in_flight s' =
          filter (\<lambda>(h, ip, port, start).
                    h \<notin> set (select_ready env (polls s) (registered s))
                    \<and> wall (poll_clock env (polls s)) - start < timeout)
            (in_flight s)" .
qed

theorem wall_clock_decides_witness:
  "same_wall demo_env (demo_env\<lparr>poll_clock := (\<lambda>k. \<lparr>wall = of_nat k, mono = 0\<rparr>)\<rparr>)
   \<and> scan_sctp demo_env [''10.0.0.1''] [2905, 2906, 2907] 2 1 3
       = scan_sctp (demo_env\<lparr>poll_clock := (\<lambda>k. \<lparr>wall = of_nat k, mono = 0\<rparr>)\<rparr>)
           [''10.0.0.1''] [2905, 2906, 2907] 2 1 3
   \<and> (1, ''10.0.0.1'', 2906, 0)
       \<in> set (in_flight (state_of (scan_sctp demo_env [''10.0.0.1''] [2905, 2906, 2907] 2 1 1)))
   \<and> (0 :: rat) = wall (admit_clock demo_env 1)
   \<and> wf_state (demo_state\<lparr>polls := 3\<rparr>)
   \<and> in_flight
        \<lparr>tasks = [(''10.0.0.1'', 2907)], in_flight = [], registered = [],
          results = [(''10.0.0.1'', 2905)], created = 2, polls = 4,
          trace = [Ev_socket 0 (''10.0.0.1'', 2905), Ev_insert 0,
                   Ev_socket 1 (''10.0.0.1'', 2906), Ev_insert 1,
                   Ev_pop 0, Ev_close 0, Ev_done 0 (''10.0.0.1'', 2905) Success,
                   Ev_close 1, Ev_pop 1, Ev_done 1 (''10.0.0.1'', 2906) Timeout]\<rparr>
       = filter (\<lambda>(h, ip, port, start).
                    h \<notin> set (select_ready demo_env (polls (demo_state\<lparr>polls := 3\<rparr>))
                               (registered (demo_state\<lparr>polls := 3\<rparr>)))
                    \<and> wall (poll_clock demo_env (polls (demo_state\<lparr>polls := 3\<rparr>))) - start < 1)
           (in_flight (demo_state\<lparr>polls := 3\<rparr>))"
proof -
  let ?env' = "demo_env\<lparr>poll_clock := (\<lambda>k. \<lparr>wall = of_nat k, mono = 0\<rparr>)\<rparr>"
  let ?s = "demo_state\<lparr>polls := 3\<rparr>"
  have sw: "same_wall demo_env ?env'"
    by (simp add: same_wall_def demo_env_def)
  have mem: "(1, ''10.0.0.1'', 2906, 0)
       \<in> set (in_flight (state_of (scan_sctp demo_env [''10.0.0.1''] [2905, 2906, 2907] 2 1 1)))"
    unfolding demo_run_1 by (simp add: state_of_def)
  have wf: "wf_state ?s" using demo_state_wf by simp
  note inst = wall_clock_decides [where env = demo_env and ips = "[''10.0.0.1'']"
      and ports = "[2905, 2906, 2907]" and concurrency = 2 and timeout = 1 and s = "?s"]
  from inst [where env' = "?env'" and fuel = 3] sw
  have eq: "scan_sctp demo_env [''10.0.0.1''] [2905, 2906, 2907] 2 1 3
       = scan_sctp ?env' [''10.0.0.1''] [2905, 2906, 2907] 2 1 3" by blast
  from inst [where fuel = 1] mem
  have st: "(0 :: rat) = wall (admit_clock demo_env 1)" by blast
  from inst [where fuel = 1] wf demo_poll
  have "in_flight
        \<lparr>tasks = [(''10.0.0.1'', 2907)], in_flight = [], registered = [],
          results = [(''10.0.0.1'', 2905)], created = 2, polls = 4,
          trace = [Ev_socket 0 (''10.0.0.1'', 2905), Ev_insert 0,
                   Ev_socket 1 (''10.0.0.1'', 2906), Ev_insert 1,
                   Ev_pop 0, Ev_close 0, Ev_done 0 (''10.0.0.1'', 2905) Success,
                   Ev_close 1, Ev_pop 1, Ev_done 1 (''10.0.0.1'', 2906) Timeout]\<rparr>
       = filter (\<lambda>(h, ip, port, start).
                    h \<notin> set (select_ready demo_env (polls ?s) (registered ?s))
                    \<and> wall (poll_clock demo_env (polls ?s)) - start < 1)
           (in_flight ?s)" by blast
  with sw eq mem st wf show ?thesis by blast
qed

text \<open>
  C4 as stated says that the comparisons use a monotonic clock, so that adjustments of
  the system clock do not change expiry. Take \<open>demo_env\<close> and \<open>skewed_env\<close>: the same
  admissions, the same answers of \<open>select\<close>, the same readings of the monotonic clock,
  but in the second the system clock is set back one hour after the first admissions.
  In the first, socket 1, which never answers, expires in the second poll and the scan
  returns after three iterations; in the second it is still in flight after three
  iterations, although one second, the timeout, has passed on the monotonic clock.
\<close>

theorem wall_clock_counterexample:
  "admit skewed_env = admit demo_env
   \<and> select_ready skewed_env = select_ready demo_env
   \<and> so_error skewed_env = so_error demo_env
   \<and> mono \<circ> admit_clock skewed_env = mono \<circ> admit_clock demo_env
   \<and> mono \<circ> poll_clock skewed_env = mono \<circ> poll_clock demo_env
   \<and> scan_sctp demo_env [''10.0.0.1''] [2905, 2906, 2907] 2 1 3 =
       Returned
         \<lparr>tasks = [], in_flight = [], registered = [], results = [(''10.0.0.1'', 2905)],
          created = 3, polls = 2,
          trace = [Ev_socket 0 (''10.0.0.1'', 2905), Ev_insert 0,
                   Ev_socket 1 (''10.0.0.1'', 2906), Ev_insert 1,
                   Ev_pop 0, Ev_close 0, Ev_done 0 (''10.0.0.1'', 2905) Success,
                   Ev_socket 2 (''10.0.0.1'', 2907), Ev_insert 2,
                   Ev_pop 2, Ev_close 2, Ev_done 2 (''10.0.0.1'', 2907) Failure,
                   Ev_close 1, Ev_pop 1, Ev_done 1 (''10.0.0.1'', 2906) Timeout]\<rparr>
   \<and> scan_sctp skewed_env [''10.0.0.1''] [2905, 2906, 2907] 2 1 3 =
       Running
         \<lparr>tasks = [], in_flight = [(1, ''10.0.0.1'', 2906, 0)], registered = [1],
          results = [(''10.0.0.1'', 2905)], created = 3, polls = 3,
          trace = [Ev_socket 0 (''10.0.0.1'', 2905), Ev_insert 0,
                   Ev_socket 1 (''10.0.0.1'', 2906), Ev_insert 1,
                   Ev_pop 0, Ev_close 0, Ev_done 0 (''10.0.0.1'', 2905) Success,
                   Ev_socket 2 (''10.0.0.1'', 2907), Ev_insert 2,
                   Ev_pop 2, Ev_close 2, Ev_done 2 (''10.0.0.1'', 2907) Failure]\<rparr>
   \<and> mono (poll_clock skewed_env 1) - mono (admit_clock skewed_env 1) = 1"
proof -
  have "scan_sctp skewed_env [''10.0.0.1''] [2905, 2906, 2907] 2 1 3 =
       Running
         \<lparr>tasks = [], in_flight = [(1, ''10.0.0.1'', 2906, 0)], registered = [1],
          results = [(''10.0.0.1'', 2905)], created = 3, polls = 3,
          trace = [Ev_socket 0 (''10.0.0.1'', 2905), Ev_insert 0,
                   Ev_socket 1 (''10.0.0.1'', 2906), Ev_insert 1,
                   Ev_pop 0, Ev_close 0, Ev_done 0 (''10.0.0.1'', 2905) Success,
                   Ev_socket 2 (''10.0.0.1'', 2907), Ev_insert 2,
                   Ev_pop 2, Ev_close 2, Ev_done 2 (''10.0.0.1'', 2907) Failure]\<rparr>"
    by (simp add: scan_sctp_def init_state_def gen_tasks_def demo_env_def skewed_env_def
        next_task_def refill.simps admit_one_def pop_def poll_once_def resolve_ready_def
        expire_def time_time_def numeral_3_eq_3)
  moreover have "admit skewed_env = admit demo_env"
    "select_ready skewed_env = select_ready demo_env"
    "so_error skewed_env = so_error demo_env"
    "mono \<circ> admit_clock skewed_env = mono \<circ> admit_clock demo_env"
    "mono \<circ> poll_clock skewed_env = mono \<circ> poll_clock demo_env"
    "mono (poll_clock skewed_env 1) - mono (admit_clock skewed_env 1) = 1"
    by (simp_all add: skewed_env_def demo_env_def fun_eq_iff)
  ultimately show ?thesis using demo_run_3 by simp
qed

section \<open>Independence of the concurrency\<close>

lemma accounted_polls [simp]: "accounted fate ts (s\<lparr>polls := k\<rparr>) = accounted fate ts s"
  by (simp add: accounted_def)

lemma drop_eq_Cons:
  assumes "drop n ts = t # rest"
  shows "n < length ts" and "ts ! n = t" and "drop (Suc n) ts = rest"
proof -
  from assms show "n < length ts" by (cases "n < length ts") simp_all
  from assms show "ts ! n = t" by (rule nth_via_drop)
  from assms show "drop (Suc n) ts = rest" by (simp add: drop_Suc drop_tl)
qed

lemma accounted_admit:
  assumes wf: "wf_state s" and ac: "accounted fate ts s" and tk: "tasks s = t # rest"
    and ad: "admit_one env t (s\<lparr>tasks := rest\<rparr>) = Inr s'"
  shows "accounted fate ts s'"
proof -
  let ?h = "created s"
  from ad have s': "registered s' = registered s @ [?h]" "created s' = Suc ?h"
    "trace s' = trace s @ [Ev_socket ?h t, Ev_insert ?h]" "tasks s' = rest"
    "results s' = results s"
    "in_flight s' = AList.update ?h (fst t, snd t, time_time (admit_clock env ?h)) (in_flight s)"
    by (auto simp: admit_one_def Let_def split: admission.splits)
  from wf have fresh: "?h \<notin> fst ` set (in_flight s)" by (rule wf_state_fresh)
  from ac tk have dr: "drop ?h ts = t # rest" by (simp add: accounted_def)
  note d = drop_eq_Cons [OF dr]
  from ac have old: "\<forall>(h, ip, port, start) \<in> set (in_flight s). (ip, port) = ts ! h"
    "distinct (map fst (dones (trace s)))"
    "fst ` set (dones (trace s)) = {h. h < ?h \<and> h \<notin> set (registered s)}"
    "\<forall>(h, t, r) \<in> set (dones (trace s)). t = ts ! h \<and> r = fate h"
    "results s = map (fst \<circ> snd) (filter (\<lambda>(h, t, r). r = Success) (dones (trace s)))"
    by (simp_all add: accounted_def)
  have "{h. h < Suc ?h \<and> h \<notin> set (registered s @ [?h])} = {h. h < ?h \<and> h \<notin> set (registered s)}"
    by (auto simp: less_Suc_eq)
  with old d fresh show ?thesis
    unfolding accounted_def s' by (auto simp: update_fresh)
qed

lemma accounted_resolve:
  assumes wf: "wf_state s" and ac: "accounted fate ts s"
    and popd: "pop h (in_flight s) = Some ((ip, port, start), d)"
    and fate: "fate h = r"
    and s': "tasks s' = tasks s" "created s' = created s" "in_flight s' = d"
      "registered s' = removeAll h (registered s)"
      "dones (trace s') = dones (trace s) @ [(h, (ip, port), r)]"
      "results s' = (if r = Success then results s @ [(ip, port)] else results s)"
  shows "accounted fate ts s'"
proof -
  from popd have d: "d = AList.delete h (in_flight s)" "map_of (in_flight s) h = Some (ip, port, start)"
    by (auto dest: pop_SomeD)
  from d(2) have mem: "(h, ip, port, start) \<in> set (in_flight s)" by (rule map_of_SomeD)
  then have "h \<in> fst ` set (in_flight s)" by force
  with wf have hreg: "h \<in> set (registered s)" by (simp add: wf_state_def)
  with wf have lt: "h < created s" by (rule wf_state_registered_less)
  from ac have old: "tasks s = drop (created s) ts" "created s \<le> length ts"
    "\<forall>(h, ip, port, start) \<in> set (in_flight s). (ip, port) = ts ! h"
    "distinct (map fst (dones (trace s)))"
    "fst ` set (dones (trace s)) = {h. h < created s \<and> h \<notin> set (registered s)}"
    "\<forall>(h, t, r) \<in> set (dones (trace s)). t = ts ! h \<and> r = fate h"
    "results s = map (fst \<circ> snd) (filter (\<lambda>(h, t, r). r = Success) (dones (trace s)))"
    by (simp_all add: accounted_def)
  from old(3) mem have tgt: "(ip, port) = ts ! h" by auto
  from old(5) hreg have nin: "h \<notin> fst ` set (dones (trace s))" by simp
  have sub: "set d \<subseteq> set (in_flight s)" unfolding d(1) by (rule set_delete_subset)
  have keys: "{h'. h' < created s \<and> h' \<notin> set (removeAll h (registered s))}
      = insert h {h'. h' < created s \<and> h' \<notin> set (registered s)}"
    using lt by auto
  show ?thesis
    unfolding accounted_def s'
  proof (intro conjI)
    show "tasks s = drop (created s) ts" "created s \<le> length ts" by (fact old(1) old(2))+
    show "\<forall>(h, ip, port, start) \<in> set d. (ip, port) = ts ! h" using old(3) sub by blast
    show "distinct (map fst (dones (trace s) @ [(h, (ip, port), r)]))"
      using old(4) nin by simp
    show "fst ` set (dones (trace s) @ [(h, (ip, port), r)])
        = {h'. h' < created s \<and> h' \<notin> set (removeAll h (registered s))}"
      unfolding keys using old(5) by simp
    show "\<forall>(h, t, r) \<in> set (dones (trace s) @ [(h, (ip, port), r)]). t = ts ! h \<and> r = fate h"
      using old(6) tgt fate by auto
    show "(if r = Success then results s @ [(ip, port)] else results s)
        = map (fst \<circ> snd) (filter (\<lambda>(h, t, r). r = Success) (dones (trace s) @ [(h, (ip, port), r)]))"
      using old(7) by simp
  qed
qed

lemma fated_ready:
  "fated env T fate \<Longrightarrow> h \<in> set (select_ready env k regs) \<Longrightarrow>
   fate h = (if so_error env h = 0 then Success else Failure)"
  unfolding fated_def by (elim conjE) (erule allE [of _ k], erule allE [of _ regs], erule allE [of _ h], simp)

lemma fated_expired:
  "fated env T fate \<Longrightarrow> h \<in> set regs \<Longrightarrow> h \<notin> set (select_ready env k regs) \<Longrightarrow>
   T \<le> wall (poll_clock env k) - wall (admit_clock env h) \<Longrightarrow> fate h = Timeout"
  unfolding fated_def
  by (elim conjE) (erule thin_rl, erule allE [of _ k], erule allE [of _ regs], erule allE [of _ h], simp)

lemma accounted_preserved:
  assumes fated: "fated env T fate"
  shows "preserved (\<lambda>s. wf_state s \<and> stamped env s \<and> accounted fate ts s) (\<lambda>s. True) env c T"
  unfolding preserved_def
proof (intro conjI allI impI)
  fix s t rest
  assume a: "(wf_state s \<and> stamped env s \<and> accounted fate ts s) \<and> tasks s = t # rest
    \<and> int (length (in_flight s)) < c"
  then have wf: "wf_state s" and ac: "accounted fate ts s"
    and tk: "tasks s = t # rest" and lt: "int (length (in_flight s)) < c"
    and st: "wf_state s \<and> stamped env s" by simp_all
  from wf have wf': "wf_state (s\<lparr>tasks := rest\<rparr>)" by simp
  show "case admit_one env t (s\<lparr>tasks := rest\<rparr>) of
          Inl (e, s') \<Rightarrow> True
        | Inr s' \<Rightarrow> wf_state s' \<and> stamped env s' \<and> accounted fate ts s'"
  proof (cases "admit_one env t (s\<lparr>tasks := rest\<rparr>)")
    case (Inl es)
    then show ?thesis by (simp split: prod.splits)
  next
    case (Inr s')
    from wf' Inr have "wf_state s'" by (rule wf_admit)
    moreover
    have "case admit_one env t (s\<lparr>tasks := rest\<rparr>) of
          Inl (e, s') \<Rightarrow> stamped env s' | Inr s' \<Rightarrow> wf_state s' \<and> stamped env s'"
      using stamped_preserved st tk lt by (rule preserved_admit)
    with Inr have "stamped env s'" by simp
    moreover from wf ac tk Inr have "accounted fate ts s'" by (rule accounted_admit)
    ultimately show ?thesis using Inr by simp
  qed
next
  fix s h ip port start d k regs
  assume a: "(wf_state s \<and> stamped env s \<and> accounted fate ts s)
    \<and> pop h (in_flight s) = Some ((ip, port, start), d)
    \<and> h \<in> set (registered s) \<and> polls s = Suc k \<and> h \<in> set regs \<and> h \<in> set (select_ready env k regs)"
  let ?s' = "resolve_ready env h ip port (s\<lparr>in_flight := d\<rparr>)"
  let ?r = "if so_error env h = 0 then Success else Failure"
  from a have wf: "wf_state s" and ac: "accounted fate ts s"
    and st: "wf_state s \<and> stamped env s" by simp_all
  from a have f: "pop h (in_flight s) = Some ((ip, port, start), d)" "h \<in> set (registered s)"
    "polls s = Suc k" "h \<in> set regs" "h \<in> set (select_ready env k regs)" by simp_all
  from wf f(1) show "wf_state ?s'" by (rule wf_resolve_ready)
  have "wf_state ?s' \<and> stamped env ?s'"
    using stamped_preserved st f by (rule preserved_ready)
  then show "stamped env ?s'" by simp
  from fated f(5) have fate: "fate h = ?r" by (rule fated_ready)
  show "accounted fate ts ?s'"
    using wf ac f(1) fate
  proof (rule accounted_resolve)
    show "dones (trace ?s') = dones (trace s) @ [(h, (ip, port), ?r)]"
      by (simp add: resolve_ready_def Let_def)
    show "results ?s' = (if ?r = Success then results s @ [(ip, port)] else results s)"
      by (simp add: resolve_ready_def Let_def)
  qed (simp_all add: resolve_ready_def Let_def)
next
  fix s h ip port start d k regs
  assume a: "(wf_state s \<and> stamped env s \<and> accounted fate ts s)
    \<and> pop h (in_flight s) = Some ((ip, port, start), d)
    \<and> h \<in> set (registered s) \<and> polls s = Suc k \<and> h \<in> set regs \<and> h \<notin> set (select_ready env k regs)
    \<and> T \<le> time_time (poll_clock env k) - start"
  let ?s' = "expire h ip port d s"
  from a have wf: "wf_state s" and ac: "accounted fate ts s" and sd: "stamped env s"
    and st: "wf_state s \<and> stamped env s" by simp_all
  from a have f: "pop h (in_flight s) = Some ((ip, port, start), d)" "h \<in> set (registered s)"
    "polls s = Suc k" "h \<in> set regs" "h \<notin> set (select_ready env k regs)"
    "T \<le> time_time (poll_clock env k) - start" by simp_all
  from wf f(1) show "wf_state ?s'" by (rule wf_expire)
  have "wf_state ?s' \<and> stamped env ?s'"
    using stamped_preserved st f by (rule preserved_expire)
  then show "stamped env ?s'" by simp
  from f(1) have "(h, ip, port, start) \<in> set (in_flight s)"
    by (auto dest!: pop_SomeD map_of_SomeD)
  with sd have "start = wall (admit_clock env h)" unfolding stamped_def by blast
  with f(6) have "T \<le> wall (poll_clock env k) - wall (admit_clock env h)"
    by (simp add: time_time_def)
  with fated f(4,5) have fate: "fate h = Timeout" by (rule fated_expired)
  show "accounted fate ts ?s'"
    using wf ac f(1) fate
    by (rule accounted_resolve) (simp_all add: expire_def)
qed simp_all

lemma init_state_accounted: "accounted fate (gen_tasks ips ports) (init_state ips ports)"
  by (simp add: accounted_def)

lemma returned_expected:
  assumes c: "0 < c" and fated: "fated env T fate"
    and run: "scan_sctp env ips ports c T fuel = Returned s"
  shows "mset (dones (trace s)) = mset (expected fate (gen_tasks ips ports))"
    and "results s = map (fst \<circ> snd) (filter (\<lambda>(h, t, r). r = Success) (dones (trace s)))"
proof -
  let ?ts = "gen_tasks ips ports"
  let ?g = "\<lambda>h. (h, ?ts ! h, fate h)"
  let ?ds = "dones (trace s)"
  have "wf_state (init_state ips ports) \<and> stamped env (init_state ips ports)
      \<and> accounted fate ?ts (init_state ips ports)"
    by (simp add: init_state_wf init_state_accounted stamped_def)
  from scan_preserved [OF accounted_preserved [OF fated] this, where fuel = fuel and c = c] run c
  have s: "wf_state s" "accounted fate ?ts s" "in_flight s = []" "tasks s = []" by simp_all
  from s(1,3) have reg: "registered s = []" by (simp add: wf_state_def)
  from s(2) have ac: "tasks s = drop (created s) ?ts" "created s \<le> length ?ts"
    "distinct (map fst ?ds)"
    "fst ` set ?ds = {h. h < created s \<and> h \<notin> set (registered s)}"
    "\<forall>(h, t, r) \<in> set ?ds. t = ?ts ! h \<and> r = fate h"
    "results s = map (fst \<circ> snd) (filter (\<lambda>(h, t, r). r = Success) ?ds)"
    by (simp_all add: accounted_def)
  show "results s = map (fst \<circ> snd) (filter (\<lambda>(h, t, r). r = Success) ?ds)" by (fact ac(6))
  from ac(1,2) s(4) have n: "created s = length ?ts" by simp
  from ac(4) reg n have "set (map fst ?ds) = set [0..<length ?ts]" by auto
  with set_eq_iff_mset_eq_distinct [OF ac(3) distinct_upt, of 0 "length ?ts"]
  have keys: "mset (map fst ?ds) = mset [0..<length ?ts]" by blast
  have "map ?g (map fst ?ds) = ?ds"
    unfolding map_map
  proof (rule map_idI)
    fix x assume "x \<in> set ?ds"
    with ac(5) show "(?g \<circ> fst) x = x" by (cases x) auto
  qed
  then have "mset ?ds = mset (map ?g (map fst ?ds))" by simp
  also have "\<dots> = image_mset ?g (mset (map fst ?ds))" by (simp only: mset_map)
  also have "\<dots> = mset (expected fate ?ts)"
    unfolding keys by (simp add: expected_def)
  finally show "mset ?ds = mset (expected fate ?ts)" .
qed

lemma demo_fated: "fated demo_env 1 demo_fate"
  by (auto simp: fated_def demo_env_def demo_fate_def)

lemma demo_run_serial:
  "scan_sctp demo_env [''10.0.0.1''] [2905, 2906, 2907] 1 1 (Suc 3) =
     Returned
       \<lparr>tasks = [], in_flight = [], registered = [], results = [(''10.0.0.1'', 2905)],
        created = 3, polls = 3,
        trace = [Ev_socket 0 (''10.0.0.1'', 2905), Ev_insert 0,
                 Ev_pop 0, Ev_close 0, Ev_done 0 (''10.0.0.1'', 2905) Success,
                 Ev_socket 1 (''10.0.0.1'', 2906), Ev_insert 1,
                 Ev_close 1, Ev_pop 1, Ev_done 1 (''10.0.0.1'', 2906) Timeout,
                 Ev_socket 2 (''10.0.0.1'', 2907), Ev_insert 2,
                 Ev_pop 2, Ev_close 2, Ev_done 2 (''10.0.0.1'', 2907) Failure]\<rparr>"
  by (simp add: scan_sctp_def init_state_def gen_tasks_def demo_env_def next_task_def
      refill.simps admit_one_def pop_def poll_once_def resolve_ready_def expire_def time_time_def
      numeral_3_eq_3)

section \<open>Termination\<close>

lemma healthy_polls [simp]: "healthy env n (s\<lparr>polls := k\<rparr>) = healthy env n s"
  by (simp add: healthy_def)

lemma admit_one_ok:
  assumes ok: "admit env (created s) = Admit_ok" and h: "healthy env n s" and tk: "tasks s = t # rest"
  shows "\<exists>s'. admit_one env t (s\<lparr>tasks := rest\<rparr>) = Inr s' \<and> healthy env n s'
           \<and> tasks s' = rest \<and> polls s' = polls s
           \<and> length (in_flight s') = Suc (length (in_flight s))"
proof -
  let ?s0 = "s\<lparr>tasks := rest\<rparr>"
  from ok obtain s' where ad: "admit_one env t ?s0 = Inr s'"
    by (simp add: admit_one_def Let_def)
  then have s': "tasks s' = rest" "polls s' = polls s" "created s' = Suc (created s)"
    "in_flight s' = AList.update (created s) (fst t, snd t, time_time (admit_clock env (created s)))
        (in_flight s)"
    by (auto simp: admit_one_def Let_def split: admission.splits)
  from h have wf: "wf_state ?s0" and st: "stamped env ?s0" by (simp_all add: healthy_def)
  from wf ad have wf': "wf_state s'" by (rule wf_admit)
  from wf have fresh: "created s \<notin> fst ` set (in_flight s)" using wf_state_fresh [of s] by simp
  with st s'(4) have st': "stamped env s'"
    by (auto simp: stamped_def update_fresh time_time_def)
  from s'(4) fresh have len: "length (in_flight s') = Suc (length (in_flight s))"
    by (simp add: update_fresh)
  from h tk s' have "created s' + length (tasks s') = n" by (simp add: healthy_def)
  with wf' st' ad s' len show ?thesis by (simp add: healthy_def)
qed

lemma refill_runs:
  "\<forall>k < n. admit env k = Admit_ok \<Longrightarrow> healthy env n s \<Longrightarrow>
   \<exists>s1. refill env c s = Inr s1 \<and> healthy env n s1 \<and> polls s1 = polls s
     \<and> length (tasks s1) \<le> length (tasks s)
     \<and> length (in_flight s) \<le> length (in_flight s1)
     \<and> (tasks s1 = [] \<or> c \<le> int (length (in_flight s1)))
     \<and> (tasks s \<noteq> [] \<and> int (length (in_flight s)) < c \<longrightarrow>
          length (tasks s1) < length (tasks s) \<and> in_flight s1 \<noteq> [])"
proof (induction env c s rule: refill.induct)
  case (1 env c s)
  note ok = \<open>\<forall>k < n. admit env k = Admit_ok\<close> and h = \<open>healthy env n s\<close>
  show ?case
  proof (cases "int (length (in_flight s)) < c")
    case False
    with h show ?thesis by (simp add: refill.simps [of env c s])
  next
    case lt: True
    show ?thesis
    proof (cases "tasks s")
      case Nil
      with lt h show ?thesis by (simp add: refill.simps [of env c s] next_task_def)
    next
      case (Cons t rest)
      then have nt: "next_task (tasks s) = Some (t, rest)" by (simp add: next_task_def)
      from h Cons have "created s < n" by (simp add: healthy_def)
      with ok have "admit env (created s) = Admit_ok" by simp
      from admit_one_ok [OF this h Cons] obtain s' where
        ad: "admit_one env t (s\<lparr>tasks := rest\<rparr>) = Inr s'" and h': "healthy env n s'"
        and s': "tasks s' = rest" "polls s' = polls s"
          "length (in_flight s') = Suc (length (in_flight s))"
        by blast
      from "1.IH" [OF lt nt refl ad ok h'] obtain s1 where
        r: "refill env c s' = Inr s1" and s1: "healthy env n s1" "polls s1 = polls s'"
          "length (tasks s1) \<le> length (tasks s')"
          "length (in_flight s') \<le> length (in_flight s1)"
          "tasks s1 = [] \<or> c \<le> int (length (in_flight s1))"
        by blast
      from lt nt ad r have run: "refill env c s = Inr s1"
        by (simp add: refill.simps [of env c s])
      from s1(4) s'(3) have "in_flight s1 \<noteq> []" "length (in_flight s) \<le> length (in_flight s1)"
        by auto
      with run s1 s' Cons show ?thesis by simp
    qed
  qed
qed

lemma event_loop_more_fuel:
  "event_loop env c T fuel s = Returned s' \<Longrightarrow> event_loop env c T (fuel + m) s = Returned s'"
proof (induction fuel arbitrary: s)
  case 0
  then show ?case by simp
next
  case (Suc fuel)
  show ?case
  proof (cases "refill env c s")
    case (Inl es)
    with Suc.prems show ?thesis by (simp split: prod.splits)
  next
    case (Inr s1)
    show ?thesis
    proof (cases "in_flight s1 = []")
      case True
      with Inr Suc.prems show ?thesis by simp
    next
      case False
      show ?thesis
      proof (cases "poll_once env T s1")
        case (Inl es)
        with Inr False Suc.prems show ?thesis by (simp split: prod.splits)
      next
        case r: (Inr s2)
        with Inr False Suc.prems have "event_loop env c T fuel s2 = Returned s'" by simp
        from Suc.IH [OF this] Inr False r show ?thesis by simp
      qed
    qed
  qed
qed

lemma poll_once_healthy:
  assumes sel: "selects_registered env" and h: "healthy env n s"
  shows "\<exists>s'. poll_once env T s = Inr s' \<and> healthy env n s' \<and> polls s' = Suc (polls s)
     \<and> tasks s' = tasks s
     \<and> in_flight s' =
          filter (\<lambda>e. fst e \<notin> set (select_ready env (polls s) (registered s))
                    \<and> \<not> T \<le> time_time (poll_clock env (polls s)) - snd (snd (snd e)))
            (in_flight s)"
proof -
  from h have wf: "wf_state s" and st: "stamped env s"
    and n: "created s + length (tasks s) = n" by (simp_all add: healthy_def)
  from wf have "distinct (registered s)" unfolding wf_state_def by blast
  with sel have "distinct (select_ready env (polls s) (registered s))"
    "set (select_ready env (polls s) (registered s)) \<subseteq> set (registered s)"
    unfolding selects_registered_def by blast+
  with wf obtain s' where run: "poll_once env T s = Inr s'"
    using poll_once_runs by blast
  note eff = poll_once_effect [OF wf run]
  have "wf_state s \<and> stamped env s" using wf st by simp
  with stamped_preserved
  have "case poll_once env T s of Inl (e, s') \<Rightarrow> stamped env s'
        | Inr s' \<Rightarrow> wf_state s' \<and> stamped env s'"
    by (rule poll_once_preserved)
  with run have "stamped env s'" by simp
  with eff n run show ?thesis by (simp add: healthy_def)
qed


lemma late_poll_empties:
  assumes h: "healthy env n s" and dl: "deadlines_pass env T K n" and late: "K \<le> polls s"
  shows "filter (\<lambda>e. fst e \<notin> set hs \<and> \<not> T \<le> time_time (poll_clock env (polls s)) - snd (snd (snd e)))
           (in_flight s) = []"
proof -
  have "T \<le> time_time (poll_clock env (polls s)) - snd (snd (snd e))"
    if e: "e \<in> set (in_flight s)" for e
  proof -
    obtain k ip port start where ek: "e = (k, ip, port, start)" by (metis prod.exhaust)
    from h have wf: "wf_state s" and st: "stamped env s"
      and n: "created s + length (tasks s) = n" by (simp_all add: healthy_def)
    from e ek st have start: "start = wall (admit_clock env k)" by (auto simp: stamped_def)
    from e ek have "k \<in> fst ` set (in_flight s)" by force
    with wf have "k \<in> set (registered s)" by (simp add: wf_state_def)
    with wf have "k < created s" by (rule wf_state_registered_less)
    with n have "k < n" by simp
    with dl late have "T \<le> wall (poll_clock env (polls s)) - wall (admit_clock env k)"
      unfolding deadlines_pass_def by blast
    with start ek show ?thesis by (simp add: time_time_def)
  qed
  then show ?thesis by (simp add: filter_empty_conv)
qed

lemma loop_step:
  assumes ok: "\<forall>k < n. admit env k = Admit_ok" and sel: "selects_registered env"
    and dl: "deadlines_pass env T K n" and c: "0 < c" and h: "healthy env n s"
  shows "(\<exists>s1. (\<forall>f. event_loop env c T (Suc f) s = Returned s1) \<and> tasks s1 = [] \<and> in_flight s1 = [])
       \<or> (\<exists>s2. (\<forall>f. event_loop env c T (Suc f) s = event_loop env c T f s2)
              \<and> healthy env n s2 \<and> budget K s2 < budget K s)"
proof -
  from refill_runs [OF ok h, of c] obtain s1 where
    r: "refill env c s = Inr s1" and s1: "healthy env n s1" "polls s1 = polls s"
      "length (tasks s1) \<le> length (tasks s)"
      "length (in_flight s) \<le> length (in_flight s1)"
      "tasks s1 = [] \<or> c \<le> int (length (in_flight s1))"
      "tasks s \<noteq> [] \<and> int (length (in_flight s)) < c \<longrightarrow>
          length (tasks s1) < length (tasks s) \<and> in_flight s1 \<noteq> []"
    by blast
  show ?thesis
  proof (cases "in_flight s1 = []")
    case True
    with s1(5) c have "tasks s1 = []" by auto
    with r True show ?thesis by auto
  next
    case False
    from poll_once_healthy [OF sel s1(1), of T] obtain s2 where
      p: "poll_once env T s1 = Inr s2" and s2: "healthy env n s2" "polls s2 = Suc (polls s1)"
        "tasks s2 = tasks s1"
        "in_flight s2 =
          filter (\<lambda>e. fst e \<notin> set (select_ready env (polls s1) (registered s1))
                    \<and> \<not> T \<le> time_time (poll_clock env (polls s1)) - snd (snd (snd e)))
            (in_flight s1)"
      by blast
    have step: "\<forall>f. event_loop env c T (Suc f) s = event_loop env c T f s2"
      using r False p by simp
    have "budget K s2 < budget K s"
    proof (cases "K \<le> polls s")
      case early: False
      then have "2 * (K - polls s2) + 2 \<le> 2 * (K - polls s)"
        using s2(2) s1(2) by simp
      with s2(3) s1(3) show ?thesis by (simp add: budget_def)
    next
      case late: True
      with s1(2) have "K \<le> polls s1" by simp
      from late_poll_empties [OF s1(1) dl this] s2(4) have e2: "in_flight s2 = []" by simp
      from late s2(2) s1(2) have k: "K - polls s2 = 0" "K - polls s = 0" by simp_all
      show ?thesis
      proof (cases "in_flight s = []")
        case True
        with False r have "tasks s \<noteq> []"
          by (auto simp: refill.simps [of env c s] next_task_def split: if_splits)
        with True c s1(6) have "length (tasks s1) < length (tasks s)" by simp
        with e2 k s2(3) show ?thesis by (simp add: budget_def)
      next
        case False
        with e2 k s2(3) s1(3) show ?thesis by (simp add: budget_def)
      qed
    qed
    with step s2(1) show ?thesis by blast
  qed
qed

lemma event_loop_returns:
  assumes ok: "\<forall>k < n. admit env k = Admit_ok" and sel: "selects_registered env"
    and dl: "deadlines_pass env T K n" and c: "0 < c"
  shows "healthy env n s \<Longrightarrow> budget K s < fuel \<Longrightarrow>
    \<exists>s'. event_loop env c T fuel s = Returned s' \<and> tasks s' = [] \<and> in_flight s' = []"
proof (induction fuel arbitrary: s)
  case 0
  then show ?case by simp
next
  case (Suc fuel)
  from loop_step [OF ok sel dl c Suc.prems(1)]
  show ?case
  proof (elim disjE exE conjE)
    fix s1
    assume "\<forall>f. event_loop env c T (Suc f) s = Returned s1" "tasks s1 = []" "in_flight s1 = []"
    then show ?thesis by auto
  next
    fix s2
    assume step: "\<forall>f. event_loop env c T (Suc f) s = event_loop env c T f s2"
      and h2: "healthy env n s2" and less: "budget K s2 < budget K s"
    from less Suc.prems(2) have "budget K s2 < fuel" by simp
    from Suc.IH [OF h2 this] step show ?thesis by simp
  qed
qed

lemma init_state_healthy: "healthy env (total ips ports) (init_state ips ports)"
  by (simp add: healthy_def init_state_wf stamped_def length_gen_tasks)

lemma wf_preserved: "preserved wf_state (\<lambda>s. True) env c T"
  unfolding preserved_def
proof (intro conjI allI impI)
  fix s t rest
  assume "wf_state s \<and> tasks s = t # rest \<and> int (length (in_flight s)) < c"
  then have "wf_state (s\<lparr>tasks := rest\<rparr>)" by simp
  from wf_admit [OF this]
  show "case admit_one env t (s\<lparr>tasks := rest\<rparr>) of Inl (e, s') \<Rightarrow> True | Inr s' \<Rightarrow> wf_state s'"
    by (simp split: sum.splits)
qed (auto intro: wf_resolve_ready wf_expire)

lemma returned_exhausted:
  assumes "0 < c" and "scan_sctp env ips ports c T fuel = Returned s"
  shows "tasks s = [] \<and> in_flight s = []"
  using scan_preserved [OF wf_preserved init_state_wf, where fuel = fuel and c = c and T = T
      and env = env and ips = ips and ports = ports] assms
  by simp

lemma exhausted_returns:
  assumes "0 < c" and "tasks s = []" and "in_flight s = []"
  shows "event_loop env c T (Suc fuel) s = Returned s"
  using assms by (simp add: refill.simps [of env c s] next_task_def)


text \<open>
  C7. Let \<open>concurrency > 0\<close>. In an environment where the sockets of the scan can be
  created and registered, \<open>select\<close> reports registered sockets only, and from some poll
  \<open>K\<close> on the system clock is past every deadline, the loop ends by returning, within
  \<open>2 * K + total ips ports + 1\<close> iterations. Whenever the loop returns, the generator is
  exhausted and \<open>in_flight\<close> is empty, and an iteration that starts with the generator
  exhausted and \<open>in_flight\<close> empty returns. With no target at all the first iteration
  returns no result, having created no socket and made no call.
\<close>

theorem scan_terminates:
  assumes "0 < concurrency"
  shows "(admits_all env (total ips ports) \<and> selects_registered env
           \<and> deadlines_pass env timeout K (total ips ports)
           \<and> 2 * K + total ips ports < fuel \<longrightarrow>
          (\<exists>s'. scan_sctp env ips ports concurrency timeout fuel = Returned s'
             \<and> tasks s' = [] \<and> in_flight s' = []))
     \<and> (scan_sctp env ips ports concurrency timeout fuel = Returned s \<longrightarrow>
          tasks s = [] \<and> in_flight s = [])
     \<and> (tasks s0 = [] \<and> in_flight s0 = [] \<longrightarrow>
          event_loop env concurrency timeout (Suc fuel) s0 = Returned s0)
     \<and> (gen_tasks ips ports = [] \<longrightarrow>
          scan_sctp env ips ports concurrency timeout (Suc fuel) =
            Returned \<lparr>tasks = [], in_flight = [], registered = [], results = [],
                       created = 0, polls = 0, trace = []\<rparr>)"
proof -
  have ends: "\<exists>s'. scan_sctp env ips ports concurrency timeout fuel = Returned s'
             \<and> tasks s' = [] \<and> in_flight s' = []"
    if a: "admits_all env (total ips ports) \<and> selects_registered env
           \<and> deadlines_pass env timeout K (total ips ports)
           \<and> 2 * K + total ips ports < fuel"
  proof -
    from a have ok: "\<forall>k < total ips ports. admit env k = Admit_ok"
      and sel: "selects_registered env"
      and dl: "deadlines_pass env timeout K (total ips ports)"
      by (simp_all add: admits_all_def)
    from a have "budget K (init_state ips ports) < fuel"
      by (simp add: budget_def length_gen_tasks)
    from event_loop_returns [OF ok sel dl assms init_state_healthy this]
    show ?thesis by (simp add: scan_sctp_def)
  qed
  have only: "tasks s = [] \<and> in_flight s = []"
    if "scan_sctp env ips ports concurrency timeout fuel = Returned s"
    using assms that by (rule returned_exhausted)
  have exits: "event_loop env concurrency timeout (Suc fuel) s0 = Returned s0"
    if "tasks s0 = [] \<and> in_flight s0 = []"
    using assms that by (intro exhausted_returns) simp_all
  have none: "scan_sctp env ips ports concurrency timeout (Suc fuel) =
            Returned \<lparr>tasks = [], in_flight = [], registered = [], results = [],
                       created = 0, polls = 0, trace = []\<rparr>"
    if "gen_tasks ips ports = []"
  proof -
    from assms that
    have "event_loop env concurrency timeout (Suc fuel) (init_state ips ports)
        = Returned (init_state ips ports)"
      by (intro exhausted_returns) simp_all
    with that show ?thesis by (simp add: scan_sctp_def init_state_def)
  qed
  from ends only exits none show ?thesis by blast
qed

theorem scan_terminates_witness:
  "(0 :: int) < 2
   \<and> admits_all demo_env (total [''10.0.0.1''] [2905, 2906, 2907])
   \<and> selects_registered demo_env
   \<and> deadlines_pass demo_env 1 1 (total [''10.0.0.1''] [2905, 2906, 2907])
   \<and> 2 * 1 + total [''10.0.0.1''] [2905, 2906, 2907] < 6
   \<and> (\<exists>s'. scan_sctp demo_env [''10.0.0.1''] [2905, 2906, 2907] 2 1 6 = Returned s'
         \<and> tasks s' = [] \<and> in_flight s' = [])
   \<and> gen_tasks [] [2905, 2906, 2907] = []
   \<and> scan_sctp demo_env [] [2905, 2906, 2907] 2 1 (Suc 0) =
        Returned \<lparr>tasks = [], in_flight = [], registered = [], results = [],
                   created = 0, polls = 0, trace = []\<rparr>"
proof -
  have pos: "(0 :: int) < 2" by simp
  have ok: "admits_all demo_env (total [''10.0.0.1''] [2905, 2906, 2907])"
    by (simp add: admits_all_def demo_env_def)
  have sel: "selects_registered demo_env"
    by (simp add: selects_registered_def demo_env_def)
  have dl: "deadlines_pass demo_env 1 1 (total [''10.0.0.1''] [2905, 2906, 2907])"
    by (simp add: deadlines_pass_def demo_env_def)
  have fuel: "2 * 1 + total [''10.0.0.1''] [2905, 2906, 2907] < 6"
    by (simp add: total_def)
  have none: "gen_tasks [] [2905, 2906, 2907] = []" by (simp add: gen_tasks_def)
  from scan_terminates [OF pos, where env = demo_env and ips = "[''10.0.0.1'']"
      and ports = "[2905, 2906, 2907]" and timeout = 1 and K = 1 and fuel = 6]
    ok sel dl fuel
  have "\<exists>s'. scan_sctp demo_env [''10.0.0.1''] [2905, 2906, 2907] 2 1 6 = Returned s'
         \<and> tasks s' = [] \<and> in_flight s' = []" by blast
  moreover
  from scan_terminates [OF pos, where env = demo_env and ips = "[]"
      and ports = "[2905, 2906, 2907]" and timeout = 1 and fuel = 0] none
  have "scan_sctp demo_env [] [2905, 2906, 2907] 2 1 (Suc 0) =
        Returned \<lparr>tasks = [], in_flight = [], registered = [], results = [],
                   created = 0, polls = 0, trace = []\<rparr>" by blast
  ultimately show ?thesis using pos ok sel dl fuel none by blast
qed

section \<open>What the loop does with the sockets reported\<close>

lemma attempted_simps [simp]:
  "attempted [] = []"
  "attempted (e # tr) = socket_of e @ attempted tr"
  "attempted (xs @ ys) = attempted xs @ attempted ys"
  by (simp_all add: attempted_def)

lemma tried_polls [simp]: "tried ts (s\<lparr>polls := k\<rparr>) = tried ts s"
  by (simp add: tried_def)

lemma tried_prefix: "tried ts s \<Longrightarrow> prefix (attempted (trace s)) ts"
  by (auto simp: tried_def)

lemma tried_preserved:
  "preserved (\<lambda>s. wf_state s \<and> tried ts s) (\<lambda>s. prefix (attempted (trace s)) ts) env c T"
  unfolding preserved_def
proof (intro conjI allI impI)
  fix s t rest
  assume a: "(wf_state s \<and> tried ts s) \<and> tasks s = t # rest \<and> int (length (in_flight s)) < c"
  then have wf: "wf_state (s\<lparr>tasks := rest\<rparr>)" by simp
  from a have ts: "attempted (trace s) @ t # rest = ts" by (auto simp: tried_def)
  show "case admit_one env t (s\<lparr>tasks := rest\<rparr>) of
          Inl (e, s') \<Rightarrow> prefix (attempted (trace s')) ts
        | Inr s' \<Rightarrow> wf_state s' \<and> tried ts s'"
  proof (cases "admit_one env t (s\<lparr>tasks := rest\<rparr>)")
    case (Inl es)
    obtain e s' where es: "es = (e, s')" by (cases es)
    with Inl have "attempted (trace s') = attempted (trace s)
        \<or> attempted (trace s') = attempted (trace s) @ [t]"
      by (auto simp: admit_one_def Let_def split: admission.splits)
    with ts have "prefix (attempted (trace s')) ts"
      by (auto simp: prefix_def)
    with Inl es show ?thesis by simp
  next
    case (Inr s')
    from wf Inr have "wf_state s'" by (rule wf_admit)
    moreover from Inr have "attempted (trace s') = attempted (trace s) @ [t]" "tasks s' = rest"
      by (auto simp: admit_one_def Let_def split: admission.splits)
    with ts have "tried ts s'" by (simp add: tried_def)
    ultimately show ?thesis using Inr by simp
  qed
next
  fix s h ip port start d k regs
  assume a: "(wf_state s \<and> tried ts s) \<and> pop h (in_flight s) = Some ((ip, port, start), d)
    \<and> h \<in> set (registered s) \<and> polls s = Suc k \<and> h \<in> set regs \<and> h \<in> set (select_ready env k regs)"
  then show "tried ts (resolve_ready env h ip port (s\<lparr>in_flight := d\<rparr>))"
    by (simp add: resolve_ready_def Let_def tried_def)
  from a show "wf_state (resolve_ready env h ip port (s\<lparr>in_flight := d\<rparr>))"
    by (simp add: wf_resolve_ready)
next
  fix s h ip port start d k regs
  assume a: "(wf_state s \<and> tried ts s) \<and> pop h (in_flight s) = Some ((ip, port, start), d)
    \<and> h \<in> set (registered s) \<and> polls s = Suc k \<and> h \<in> set regs \<and> h \<notin> set (select_ready env k regs)
    \<and> T \<le> time_time (poll_clock env k) - start"
  then show "tried ts (expire h ip port d s)"
    by (simp add: expire_def tried_def)
  from a show "wf_state (expire h ip port d s)"
    by (simp add: wf_expire)
qed (simp_all add: tried_prefix)

lemma scan_results:
  "results_inv env (state_of (scan_sctp env ips ports c T fuel))"
proof -
  have "wf_state (init_state ips ports) \<and> results_inv env (init_state ips ports)"
    by (simp add: init_state_wf results_inv_def)
  from scan_preserved [OF results_inv_preserved this, where fuel = fuel and T = T and c = c]
  show ?thesis by (auto simp: state_of_def split: outcome.splits)
qed

lemma scan_attempted:
  "prefix (attempted (trace (state_of (scan_sctp env ips ports c T fuel)))) (gen_tasks ips ports)"
proof -
  have "wf_state (init_state ips ports) \<and> tried (gen_tasks ips ports) (init_state ips ports)"
    by (simp add: init_state_wf tried_def)
  from scan_preserved [OF tried_preserved this, where fuel = fuel and T = T and c = c and env = env]
  show ?thesis by (auto simp: state_of_def tried_prefix split: outcome.splits)
qed

lemma loop_iteration:
  assumes wf: "wf_state s1" and r: "refill env c s0 = Inr s1" and ne: "in_flight s1 \<noteq> []"
    and p: "poll_once env T s1 = Inr s2"
  defines "hs \<equiv> select_ready env (polls s1) (registered s1)"
  shows "event_loop env c T (Suc fuel) s0 = event_loop env c T fuel s2"
    and "distinct hs" and "set hs \<subseteq> fst ` set (in_flight s1)"
    and "set hs \<inter> set (registered s2) = {}" and "set hs \<inter> fst ` set (in_flight s2) = {}"
    and "tasks s2 = tasks s1"
    and "results s2 = results s1 @ concat (map (ready_results env (in_flight s1)) hs)"
    and "prefix (trace s1 @ concat (map (ready_events env (in_flight s1)) hs)) (trace s2)"
proof -
  show "event_loop env c T (Suc fuel) s0 = event_loop env c T fuel s2"
    using r ne p by simp
  note eff = poll_once_effect [OF wf p, folded hs_def]
  show "distinct hs" by (fact eff(1))
  from wf have keys: "set (registered s1) = fst ` set (in_flight s1)" by (simp add: wf_state_def)
  with eff(2) show "set hs \<subseteq> fst ` set (in_flight s1)" by simp
  from eff(4) show i: "set hs \<inter> fst ` set (in_flight s2) = {}" by auto
  from eff(3) have "set (registered s2) = fst ` set (in_flight s2)" by (simp add: wf_state_def)
  with i show "set hs \<inter> set (registered s2) = {}" by simp
  show "tasks s2 = tasks s1" by (fact eff(5))
  show "results s2 = results s1 @ concat (map (ready_results env (in_flight s1)) hs)"
    by (fact eff(8))
  show "prefix (trace s1 @ concat (map (ready_events env (in_flight s1)) hs)) (trace s2)"
    unfolding eff(9) by (simp add: prefix_def)
qed


text \<open>
  C5. Every socket \<open>select\<close> reports is unregistered and popped from \<open>in_flight\<close>, its
  \<open>SO_ERROR\<close> is read, its target is appended to \<open>results\<close> exactly when the error is
  zero, and it is closed (the events of \<open>ready_events\<close>); nothing is put back into
  \<open>tasks\<close>. An iteration of the loop that polls does this with the list \<open>select\<close>
  answers for the registered sockets, and goes on from the state the poll leaves. So at
  any moment of a scan, and at its return, \<open>results\<close> holds, in order, the targets of
  the attempts that completed (were resolved, and not as a timeout) with \<open>SO_ERROR\<close>
  zero, and the targets attempted are, in order, an initial part of the generator's
  sequence: no target is taken up again once its attempt has ended.
\<close>

theorem ready_resolution:
  "(wf_state s \<and> handle_ready env hs s = Inr s' \<longrightarrow>
       set hs \<subseteq> fst ` set (in_flight s)
     \<and> registered s' = filter (\<lambda>h. h \<notin> set hs) (registered s)
     \<and> in_flight s' = filter (\<lambda>e. fst e \<notin> set hs) (in_flight s)
     \<and> tasks s' = tasks s
     \<and> results s' = results s @ concat (map (ready_results env (in_flight s)) hs)
     \<and> trace s' = trace s @ concat (map (ready_events env (in_flight s)) hs))
   \<and> (wf_state s1 \<and> refill env concurrency s0 = Inr s1 \<and> in_flight s1 \<noteq> []
        \<and> poll_once env timeout s1 = Inr s2 \<longrightarrow>
       event_loop env concurrency timeout (Suc fuel') s0
         = event_loop env concurrency timeout fuel' s2
     \<and> set (select_ready env (polls s1) (registered s1)) \<subseteq> fst ` set (in_flight s1)
     \<and> set (select_ready env (polls s1) (registered s1)) \<inter> set (registered s2) = {}
     \<and> set (select_ready env (polls s1) (registered s1)) \<inter> fst ` set (in_flight s2) = {}
     \<and> tasks s2 = tasks s1
     \<and> results s2 = results s1
           @ concat (map (ready_results env (in_flight s1))
               (select_ready env (polls s1) (registered s1)))
     \<and> prefix (trace s1
           @ concat (map (ready_events env (in_flight s1))
               (select_ready env (polls s1) (registered s1))))
          (trace s2))
   \<and> (let z = state_of (scan_sctp env ips ports concurrency timeout fuel) in
        results z = [t. (h, t, r) \<leftarrow> dones (trace z), r \<noteq> Timeout \<and> so_error env h = 0]
        \<and> prefix (attempted (trace z)) (gen_tasks ips ports))"
proof (intro conjI impI)
  assume a: "wf_state s \<and> handle_ready env hs s = Inr s'"
  then have eff: "distinct hs \<and> set hs \<subseteq> set (registered s)
     \<and> wf_state s'
     \<and> registered s' = filter (\<lambda>h. h \<notin> set hs) (registered s)
     \<and> in_flight s' = filter (\<lambda>e. fst e \<notin> set hs) (in_flight s)
     \<and> results s' = results s @ concat (map (ready_results env (in_flight s)) hs)
     \<and> trace s' = trace s @ concat (map (ready_events env (in_flight s)) hs)"
    using handle_ready_effect [of s env hs s'] by blast
  from a have "set (registered s) = fst ` set (in_flight s)" by (simp add: wf_state_def)
  with eff show "set hs \<subseteq> fst ` set (in_flight s)" by simp
  from eff show "registered s' = filter (\<lambda>h. h \<notin> set hs) (registered s)"
    "in_flight s' = filter (\<lambda>e. fst e \<notin> set hs) (in_flight s)"
    "results s' = results s @ concat (map (ready_results env (in_flight s)) hs)"
    "trace s' = trace s @ concat (map (ready_events env (in_flight s)) hs)"
    by simp_all
  from a handle_ready_frame [of env hs s s'] show "tasks s' = tasks s" by simp
next
  assume b: "wf_state s1 \<and> refill env concurrency s0 = Inr s1 \<and> in_flight s1 \<noteq> []
        \<and> poll_once env timeout s1 = Inr s2"
  then have wf: "wf_state s1" and r: "refill env concurrency s0 = Inr s1"
    and ne: "in_flight s1 \<noteq> []" and p: "poll_once env timeout s1 = Inr s2"
    by simp_all
  note it = loop_iteration [OF wf r ne p]
  show "event_loop env concurrency timeout (Suc fuel') s0
         = event_loop env concurrency timeout fuel' s2" by (rule it(1))
  show "set (select_ready env (polls s1) (registered s1)) \<subseteq> fst ` set (in_flight s1)"
    by (rule it(3))
  show "set (select_ready env (polls s1) (registered s1)) \<inter> set (registered s2) = {}"
    by (rule it(4))
  show "set (select_ready env (polls s1) (registered s1)) \<inter> fst ` set (in_flight s2) = {}"
    by (rule it(5))
  show "tasks s2 = tasks s1" by (rule it(6))
  show "results s2 = results s1
           @ concat (map (ready_results env (in_flight s1))
               (select_ready env (polls s1) (registered s1)))" by (rule it(7))
  show "prefix (trace s1
           @ concat (map (ready_events env (in_flight s1))
               (select_ready env (polls s1) (registered s1))))
          (trace s2)" by (rule it(8))
next
  from scan_results [of env ips ports concurrency timeout fuel]
    scan_attempted [of env ips ports concurrency timeout fuel]
  show "let z = state_of (scan_sctp env ips ports concurrency timeout fuel) in
        results z = [t. (h, t, r) \<leftarrow> dones (trace z), r \<noteq> Timeout \<and> so_error env h = 0]
        \<and> prefix (attempted (trace z)) (gen_tasks ips ports)"
    by (simp add: results_inv_def Let_def)
qed

lemma demo_refill_full: "refill demo_env 2 (demo_state\<lparr>polls := 3\<rparr>) = Inr (demo_state\<lparr>polls := 3\<rparr>)"
  by (simp add: refill.simps demo_state_def)

theorem ready_resolution_witness:
  "wf_state demo_state
   \<and> handle_ready demo_env [0] demo_state =
       Inr (demo_state\<lparr>in_flight := [(1, ''10.0.0.1'', 2906, 0)], registered := [1],
              results := [(''10.0.0.1'', 2905)],
              trace := trace demo_state
                 @ [Ev_pop 0, Ev_close 0, Ev_done 0 (''10.0.0.1'', 2905) Success]\<rparr>)
   \<and> tasks (demo_state\<lparr>in_flight := [(1, ''10.0.0.1'', 2906, 0)], registered := [1],
              results := [(''10.0.0.1'', 2905)],
              trace := trace demo_state
                 @ [Ev_pop 0, Ev_close 0, Ev_done 0 (''10.0.0.1'', 2905) Success]\<rparr>)
       = tasks demo_state
   \<and> results (demo_state\<lparr>in_flight := [(1, ''10.0.0.1'', 2906, 0)], registered := [1],
              results := [(''10.0.0.1'', 2905)],
              trace := trace demo_state
                 @ [Ev_pop 0, Ev_close 0, Ev_done 0 (''10.0.0.1'', 2905) Success]\<rparr>)
       = results demo_state @ concat (map (ready_results demo_env (in_flight demo_state)) [0])
   \<and> wf_state (demo_state\<lparr>polls := 3\<rparr>)
   \<and> refill demo_env 2 (demo_state\<lparr>polls := 3\<rparr>) = Inr (demo_state\<lparr>polls := 3\<rparr>)
   \<and> in_flight (demo_state\<lparr>polls := 3\<rparr>) \<noteq> []
   \<and> event_loop demo_env 2 1 (Suc 0) (demo_state\<lparr>polls := 3\<rparr>) =
       Running
         \<lparr>tasks = [(''10.0.0.1'', 2907)], in_flight = [], registered = [],
          results = [(''10.0.0.1'', 2905)], created = 2, polls = 4,
          trace = [Ev_socket 0 (''10.0.0.1'', 2905), Ev_insert 0,
                   Ev_socket 1 (''10.0.0.1'', 2906), Ev_insert 1,
                   Ev_pop 0, Ev_close 0, Ev_done 0 (''10.0.0.1'', 2905) Success,
                   Ev_close 1, Ev_pop 1, Ev_done 1 (''10.0.0.1'', 2906) Timeout]\<rparr>
   \<and> results (state_of (scan_sctp demo_env [''10.0.0.1''] [2905, 2906, 2907] 2 1 3))
       = [(''10.0.0.1'', 2905)]
   \<and> [(''10.0.0.1'', 2905)]
       = [t. (h, t, r) \<leftarrow> dones (trace (state_of
              (scan_sctp demo_env [''10.0.0.1''] [2905, 2906, 2907] 2 1 3))),
            r \<noteq> Timeout \<and> so_error demo_env h = 0]
   \<and> prefix (attempted (trace (state_of
              (scan_sctp demo_env [''10.0.0.1''] [2905, 2906, 2907] 2 1 3))))
        (gen_tasks [''10.0.0.1''] [2905, 2906, 2907])"
proof -
  let ?s' = "demo_state\<lparr>in_flight := [(1, ''10.0.0.1'', 2906, 0)], registered := [1],
              results := [(''10.0.0.1'', 2905)],
              trace := trace demo_state
                 @ [Ev_pop 0, Ev_close 0, Ev_done 0 (''10.0.0.1'', 2905) Success]\<rparr>"
  let ?s0 = "demo_state\<lparr>polls := 3\<rparr>"
  let ?s2 = "\<lparr>tasks = [(''10.0.0.1'', 2907)], in_flight = [], registered = [],
          results = [(''10.0.0.1'', 2905)], created = 2, polls = 4,
          trace = [Ev_socket 0 (''10.0.0.1'', 2905), Ev_insert 0,
                   Ev_socket 1 (''10.0.0.1'', 2906), Ev_insert 1,
                   Ev_pop 0, Ev_close 0, Ev_done 0 (''10.0.0.1'', 2905) Success,
                   Ev_close 1, Ev_pop 1, Ev_done 1 (''10.0.0.1'', 2906) Timeout]\<rparr>"
  let ?z = "state_of (scan_sctp demo_env [''10.0.0.1''] [2905, 2906, 2907] 2 1 3)"
  have run: "handle_ready demo_env [0] demo_state = Inr ?s'"
    by (simp add: demo_state_def demo_env_def pop_def resolve_ready_def)
  have wf0: "wf_state ?s0" using demo_state_wf by simp
  have ne: "in_flight ?s0 \<noteq> []" by (simp add: demo_state_def)
  have res: "results ?z = [(''10.0.0.1'', 2905)]"
    unfolding demo_run_3 by (simp add: state_of_def)
  note inst = ready_resolution [where s = demo_state and env = demo_env and hs = "[0]"
      and s' = "?s'" and ?s0.0 = "?s0" and ?s1.0 = "?s0" and ?s2.0 = "?s2"
      and concurrency = 2 and timeout = 1 and fuel' = 0
      and ips = "[''10.0.0.1'']" and ports = "[2905, 2906, 2907]" and fuel = 3]
  from inst demo_state_wf run
  have a: "tasks ?s' = tasks demo_state"
    "results ?s' = results demo_state
       @ concat (map (ready_results demo_env (in_flight demo_state)) [0])"
    by blast+
  from inst wf0 demo_refill_full ne demo_poll
  have "event_loop demo_env 2 1 (Suc 0) ?s0 = event_loop demo_env 2 1 0 ?s2" by blast
  then have b: "event_loop demo_env 2 1 (Suc 0) ?s0 = Running ?s2" by simp
  from inst
  have c: "results ?z = [t. (h, t, r) \<leftarrow> dones (trace ?z), r \<noteq> Timeout \<and> so_error demo_env h = 0]"
    "prefix (attempted (trace ?z)) (gen_tasks [''10.0.0.1''] [2905, 2906, 2907])"
    by (simp_all add: Let_def)
  from c(1) res
  have c1: "[(''10.0.0.1'', 2905)]
       = [t. (h, t, r) \<leftarrow> dones (trace ?z), r \<noteq> Timeout \<and> so_error demo_env h = 0]"
    by simp
  from demo_state_wf run a wf0 demo_refill_full ne b res c1 c(2)
  show ?thesis by (intro conjI)
qed


section \<open>Scans of the same targets with different concurrency\<close>

lemma scan_returns:
  assumes c: "0 < c" and ok: "admits_all env (total ips ports)"
    and sel: "selects_registered env"
    and dl: "deadlines_pass env T K (total ips ports)"
    and fuel: "2 * K + total ips ports < fuel"
  shows "\<exists>s'. scan_sctp env ips ports c T fuel = Returned s'"
proof -
  from ok have ok': "\<forall>k < total ips ports. admit env k = Admit_ok"
    by (simp add: admits_all_def)
  from fuel have "budget K (init_state ips ports) < fuel"
    by (simp add: budget_def length_gen_tasks)
  from event_loop_returns [OF ok' sel dl c init_state_healthy this]
  show ?thesis unfolding scan_sctp_def by blast
qed

lemma returned_agree:
  assumes c1: "0 < c1" and c2: "0 < c2"
    and f1: "fated env1 T fate" and f2: "fated env2 T fate"
    and run1: "scan_sctp env1 ips ports c1 T fuel1 = Returned s1"
    and run2: "scan_sctp env2 ips ports c2 T fuel2 = Returned s2"
  shows "mset (dones (trace s1)) = mset (expected fate (gen_tasks ips ports))
     \<and> mset (dones (trace s1)) = mset (dones (trace s2))
     \<and> (\<forall>r. length (filter (\<lambda>(h, t, r'). r' = r) (dones (trace s1)))
            = length (filter (\<lambda>(h, t, r'). r' = r) (dones (trace s2))))
     \<and> mset (results s1) = mset (results s2)"
proof -
  note r1 = returned_expected [OF c1 f1 run1] and r2 = returned_expected [OF c2 f2 run2]
  from r1(1) r2(1) have eq: "mset (dones (trace s1)) = mset (dones (trace s2))" by simp
  have cnt: "length (filter P (dones (trace s1))) = length (filter P (dones (trace s2)))" for P
  proof -
    have "size (filter_mset P (mset (dones (trace s1)))) = size (filter_mset P (mset (dones (trace s2))))"
      by (simp only: eq)
    then show ?thesis by (simp only: mset_filter [symmetric] size_mset)
  qed
  have "mset (results s1)
      = image_mset (fst \<circ> snd) (filter_mset (\<lambda>(h, t, r). r = Success) (mset (dones (trace s1))))"
    unfolding r1(2) by simp
  also have "\<dots> = mset (results s2)"
    unfolding r2(2) eq by simp
  finally have res: "mset (results s1) = mset (results s2)" .
  show ?thesis
  proof (intro conjI allI)
    show "mset (dones (trace s1)) = mset (expected fate (gen_tasks ips ports))" by (fact r1(1))
    show "mset (dones (trace s1)) = mset (dones (trace s2))" by (fact eq)
    show "mset (results s1) = mset (results s2)" by (fact res)
    show "length (filter (\<lambda>(h, t, r'). r' = r) (dones (trace s1)))
            = length (filter (\<lambda>(h, t, r'). r' = r) (dones (trace s2)))" for r
      by (rule cnt)
  qed
qed

lemma demo_run_serial_6:
  "scan_sctp demo_env [''10.0.0.1''] [2905, 2906, 2907] 1 1 6 =
     scan_sctp demo_env [''10.0.0.1''] [2905, 2906, 2907] 1 1 (Suc 3)"
proof -
  note a = event_loop_more_fuel [OF demo_run_serial [unfolded scan_sctp_def], of 2]
  have b: "Suc 3 + 2 = (6 :: nat)" by simp
  show ?thesis unfolding demo_run_serial unfolding scan_sctp_def using a unfolding b .
qed

lemma demo_run_6:
  "scan_sctp demo_env [''10.0.0.1''] [2905, 2906, 2907] 2 1 6 =
     scan_sctp demo_env [''10.0.0.1''] [2905, 2906, 2907] 2 1 3"
proof -
  note a = event_loop_more_fuel [OF demo_run_3 [unfolded scan_sctp_def], of 3]
  have b: "3 + 3 = (6 :: nat)" by simp
  show ?thesis unfolding demo_run_3 unfolding scan_sctp_def using a unfolding b .
qed

text \<open>
  C8. Fix the targets and the outcome \<open>fate h\<close> of each attempt (attempt \<open>h\<close> is the one
  on target number \<open>h\<close>), and take two concurrency values above zero, each with an
  environment that behaves as \<open>fate\<close> says. If in both environments the sockets of the
  scan can be created and registered, \<open>select\<close> reports registered sockets only and the
  system clock is past every deadline from some poll on, then both scans return, and
  they have resolved the same attempts in the same way (as multisets: each attempt \<open>h\<close>
  once, on its target, as \<open>fate h\<close>), so have the same number of successes, failures and
  timeouts, and return the same targets (as multisets). The same agreement holds of any
  two scans that return, whatever the number of iterations they took.
\<close>

theorem concurrency_independent:
  assumes "0 < c1" and "0 < c2"
    and "fated env1 timeout fate" and "fated env2 timeout fate"
  shows "(admits_all env1 (total ips ports) \<and> selects_registered env1
           \<and> deadlines_pass env1 timeout K1 (total ips ports)
           \<and> 2 * K1 + total ips ports < fuel1
           \<and> admits_all env2 (total ips ports) \<and> selects_registered env2
           \<and> deadlines_pass env2 timeout K2 (total ips ports)
           \<and> 2 * K2 + total ips ports < fuel2 \<longrightarrow>
          (\<exists>s1 s2. scan_sctp env1 ips ports c1 timeout fuel1 = Returned s1
             \<and> scan_sctp env2 ips ports c2 timeout fuel2 = Returned s2
             \<and> mset (dones (trace s1)) = mset (expected fate (gen_tasks ips ports))
             \<and> mset (dones (trace s1)) = mset (dones (trace s2))
             \<and> (\<forall>r. length (filter (\<lambda>(h, t, r'). r' = r) (dones (trace s1)))
                    = length (filter (\<lambda>(h, t, r'). r' = r) (dones (trace s2))))
             \<and> mset (results s1) = mset (results s2)))
     \<and> (scan_sctp env1 ips ports c1 timeout n1 = Returned z1
         \<and> scan_sctp env2 ips ports c2 timeout n2 = Returned z2 \<longrightarrow>
          mset (dones (trace z1)) = mset (expected fate (gen_tasks ips ports))
          \<and> mset (dones (trace z1)) = mset (dones (trace z2))
          \<and> (\<forall>r. length (filter (\<lambda>(h, t, r'). r' = r) (dones (trace z1)))
                 = length (filter (\<lambda>(h, t, r'). r' = r) (dones (trace z2))))
          \<and> mset (results z1) = mset (results z2))"
proof (rule conjI; rule impI)
  assume a: "admits_all env1 (total ips ports) \<and> selects_registered env1
           \<and> deadlines_pass env1 timeout K1 (total ips ports)
           \<and> 2 * K1 + total ips ports < fuel1
           \<and> admits_all env2 (total ips ports) \<and> selects_registered env2
           \<and> deadlines_pass env2 timeout K2 (total ips ports)
           \<and> 2 * K2 + total ips ports < fuel2"
  then have "\<exists>s1. scan_sctp env1 ips ports c1 timeout fuel1 = Returned s1"
    by (intro scan_returns [OF assms(1), where K = K1]) simp_all
  then obtain s1 where run1: "scan_sctp env1 ips ports c1 timeout fuel1 = Returned s1" ..
  from a have "\<exists>s2. scan_sctp env2 ips ports c2 timeout fuel2 = Returned s2"
    by (intro scan_returns [OF assms(2), where K = K2]) simp_all
  then obtain s2 where run2: "scan_sctp env2 ips ports c2 timeout fuel2 = Returned s2" ..
  note ag = returned_agree [OF assms run1 run2]
  show "\<exists>s1 s2. scan_sctp env1 ips ports c1 timeout fuel1 = Returned s1
             \<and> scan_sctp env2 ips ports c2 timeout fuel2 = Returned s2
             \<and> mset (dones (trace s1)) = mset (expected fate (gen_tasks ips ports))
             \<and> mset (dones (trace s1)) = mset (dones (trace s2))
             \<and> (\<forall>r. length (filter (\<lambda>(h, t, r'). r' = r) (dones (trace s1)))
                    = length (filter (\<lambda>(h, t, r'). r' = r) (dones (trace s2))))
             \<and> mset (results s1) = mset (results s2)"
    apply (rule exI [of _ s1])
    apply (rule exI [of _ s2])
    apply (rule conjI [OF run1 conjI [OF run2 ag]])
    done
next
  assume "scan_sctp env1 ips ports c1 timeout n1 = Returned z1
         \<and> scan_sctp env2 ips ports c2 timeout n2 = Returned z2"
  then have run1: "scan_sctp env1 ips ports c1 timeout n1 = Returned z1"
    and run2: "scan_sctp env2 ips ports c2 timeout n2 = Returned z2" by simp_all
  show "mset (dones (trace z1)) = mset (expected fate (gen_tasks ips ports))
          \<and> mset (dones (trace z1)) = mset (dones (trace z2))
          \<and> (\<forall>r. length (filter (\<lambda>(h, t, r'). r' = r) (dones (trace z1)))
                 = length (filter (\<lambda>(h, t, r'). r' = r) (dones (trace z2))))
          \<and> mset (results z1) = mset (results z2)"
    by (rule returned_agree [OF assms run1 run2])
qed

theorem concurrency_independent_witness:
  "(0 :: int) < 1 \<and> (0 :: int) < 2
   \<and> fated demo_env 1 demo_fate
   \<and> admits_all demo_env (total [''10.0.0.1''] [2905, 2906, 2907])
   \<and> selects_registered demo_env
   \<and> deadlines_pass demo_env 1 1 (total [''10.0.0.1''] [2905, 2906, 2907])
   \<and> 2 * 1 + total [''10.0.0.1''] [2905, 2906, 2907] < 6
   \<and> (\<exists>s1 s2. scan_sctp demo_env [''10.0.0.1''] [2905, 2906, 2907] 1 1 6 = Returned s1
         \<and> scan_sctp demo_env [''10.0.0.1''] [2905, 2906, 2907] 2 1 6 = Returned s2
         \<and> mset (dones (trace s1)) = mset (dones (trace s2))
         \<and> mset (results s1) = mset (results s2))
   \<and> results (state_of (scan_sctp demo_env [''10.0.0.1''] [2905, 2906, 2907] 1 1 6))
       = [(''10.0.0.1'', 2905)]
   \<and> results (state_of (scan_sctp demo_env [''10.0.0.1''] [2905, 2906, 2907] 2 1 6))
       = [(''10.0.0.1'', 2905)]
   \<and> mset [(0, (''10.0.0.1'', 2905), Success), (1, (''10.0.0.1'', 2906), Timeout),
            (2, (''10.0.0.1'', 2907), Failure)]
       = mset [(0, (''10.0.0.1'', 2905), Success), (2, (''10.0.0.1'', 2907), Failure),
               (1, (''10.0.0.1'', 2906), Timeout)]
   \<and> mset (results (state_of (scan_sctp demo_env [''10.0.0.1''] [2905, 2906, 2907] 1 1 (Suc 3))))
       = mset (results (state_of (scan_sctp demo_env [''10.0.0.1''] [2905, 2906, 2907] 2 1 3)))"
proof -
  have pos: "(0 :: int) < 1" "(0 :: int) < 2" by simp_all
  have ok: "admits_all demo_env (total [''10.0.0.1''] [2905, 2906, 2907])"
    by (simp add: admits_all_def demo_env_def)
  have sel: "selects_registered demo_env"
    by (simp add: selects_registered_def demo_env_def)
  have dl: "deadlines_pass demo_env 1 1 (total [''10.0.0.1''] [2905, 2906, 2907])"
    by (simp add: deadlines_pass_def demo_env_def)
  have fuel: "2 * 1 + total [''10.0.0.1''] [2905, 2906, 2907] < 6"
    by (simp add: total_def)
  note inst = concurrency_independent [OF pos demo_fated demo_fated,
      where ips = "[''10.0.0.1'']" and ports = "[2905, 2906, 2907]"]
  from inst [where ?K1.0 = 1 and ?K2.0 = 1 and ?fuel1.0 = 6 and ?fuel2.0 = 6] ok sel dl fuel
  have both: "\<exists>s1 s2. scan_sctp demo_env [''10.0.0.1''] [2905, 2906, 2907] 1 1 6 = Returned s1
         \<and> scan_sctp demo_env [''10.0.0.1''] [2905, 2906, 2907] 2 1 6 = Returned s2
         \<and> mset (dones (trace s1)) = mset (dones (trace s2))
         \<and> mset (results s1) = mset (results s2)"
    by blast
  have r1: "results (state_of (scan_sctp demo_env [''10.0.0.1''] [2905, 2906, 2907] 1 1 6))
       = [(''10.0.0.1'', 2905)]"
    unfolding demo_run_serial_6 demo_run_serial by (simp add: state_of_def)
  have r2: "results (state_of (scan_sctp demo_env [''10.0.0.1''] [2905, 2906, 2907] 2 1 6))
       = [(''10.0.0.1'', 2905)]"
    unfolding demo_run_6 demo_run_3 by (simp add: state_of_def)
  from inst [where ?n1.0 = "Suc 3" and ?n2.0 = 3] demo_run_serial demo_run_3
  have old: "mset [(0, (''10.0.0.1'', 2905), Success), (1, (''10.0.0.1'', 2906), Timeout),
            (2, (''10.0.0.1'', 2907), Failure)]
       = mset [(0, (''10.0.0.1'', 2905), Success), (2, (''10.0.0.1'', 2907), Failure),
               (1, (''10.0.0.1'', 2906), Timeout)]"
    "mset (results (state_of (scan_sctp demo_env [''10.0.0.1''] [2905, 2906, 2907] 1 1 (Suc 3))))
       = mset (results (state_of (scan_sctp demo_env [''10.0.0.1''] [2905, 2906, 2907] 2 1 3)))"
    unfolding demo_run_serial demo_run_3 by (simp_all add: state_of_def)
  from pos demo_fated ok sel dl fuel both r1 r2 old
  show ?thesis by (intro conjI)
qed

end
